theory Spec2Isabelle
  imports Main "HOL-Library.List_Lexorder" "HOL-Library.Sublist" "HOL-Library.AList"
    "HOL-Library.Multiset"
begin

section \<open>Python strings\<close>

text \<open>
  A Python \<open>str\<close> is a sequence of Unicode code points. It is modelled as a list of
  natural numbers, one per code point, so that \<open>length\<close>, slicing, \<open>in\<close>,
  \<open>replace\<close> and the order used by \<open>sorted\<close> (lexicographic on code points, from
  \<open>HOL-Library.List_Lexorder\<close>) are the ones of the source. ASCII literals are
  embedded with \<open>ascii\<close>; the Chinese message literals of \<open>main.py\<close> are written
  out by their code points.
\<close>

type_synonym pystr = "nat list"

definition ascii :: "string \<Rightarrow> pystr" where
  "ascii s = map of_char s"

definition SLASH :: nat where "SLASH = 47"
definition LF :: nat where "LF = 10"
definition CR :: nat where "CR = 13"

subsection \<open>The message literals of main.py\<close>

text \<open>Line 128, the unknown-tool prefix ("unknown tool: ").\<close>
definition msg_unknown_tool :: pystr where
  "msg_unknown_tool = [0x672A, 0x77E5, 0x5DE5, 0x5177, 0x3A, 0x20]"

text \<open>Line 131, \<open>f"<exec_pre>{tool_name}<exec_err>{str(e)}"\<close> ("error while executing").\<close>
definition msg_exec_pre :: pystr where
  "msg_exec_pre = [0x6267, 0x884C, 0x20]"
definition msg_exec_err :: pystr where
  "msg_exec_err = [0x20, 0x65F6, 0x51FA, 0x9519, 0x3A, 0x20]"

text \<open>Lines 145 and 175: \<open>f"<file_pre>{path}<content_suf>{content}"\<close> and
  \<open>f"{path}<content_suf>"\<close> ("content of ...:" and a line feed).\<close>
definition msg_file_pre :: pystr where
  "msg_file_pre = [0x6587, 0x4EF6, 0x20]"
definition msg_content_suf :: pystr where
  "msg_content_suf = [0x20, 0x7684, 0x5185, 0x5BB9, 0x3A, 0x0A]"

text \<open>Line 147 ("file not found: ") and line 149 ("error while reading the file: ").\<close>
definition msg_file_not_found :: pystr where
  "msg_file_not_found = [0x6587, 0x4EF6, 0x672A, 0x627E, 0x5230, 0x3A, 0x20]"
definition msg_read_err :: pystr where
  "msg_read_err = [0x8BFB, 0x53D6, 0x6587, 0x4EF6, 0x65F6, 0x51FA, 0x9519, 0x3A, 0x20]"

text \<open>Line 162 ("path not found: "), lines 168 and 170 (the directory and file tags),
  line 173 ("empty directory: ") and line 177 ("error while listing files: ").\<close>
definition msg_path_not_found :: pystr where
  "msg_path_not_found = [0x8DEF, 0x5F84, 0x672A, 0x627E, 0x5230, 0x3A, 0x20]"
definition tag_dir :: pystr where
  "tag_dir = [0x5B, 0x76EE, 0x5F55, 0x5D, 0x20, 0x20]"
definition tag_file :: pystr where
  "tag_file = [0x5B, 0x6587, 0x4EF6, 0x5D, 0x20]"
definition msg_empty_dir :: pystr where
  "msg_empty_dir = [0x7A7A, 0x76EE, 0x5F55, 0x3A, 0x20]"
definition msg_list_err :: pystr where
  "msg_list_err = [0x5217, 0x51FA, 0x6587, 0x4EF6, 0x65F6, 0x51FA, 0x9519, 0x3A, 0x20]"

text \<open>Line 197 ("text not found in file: "), line 204 ("successfully edited "),
  line 215 ("successfully created ") and line 217 ("error while editing the file: ").\<close>
definition msg_text_not_found :: pystr where
  "msg_text_not_found =
     [0x6587, 0x4EF6, 0x4E2D, 0x672A, 0x627E, 0x5230, 0x6587, 0x672C, 0x3A, 0x20]"
definition msg_edit_ok :: pystr where
  "msg_edit_ok = [0x6210, 0x529F, 0x7F16, 0x8F91, 0x20]"
definition msg_create_ok :: pystr where
  "msg_create_ok = [0x6210, 0x529F, 0x521B, 0x5EFA, 0x20]"
definition msg_edit_err :: pystr where
  "msg_edit_err = [0x7F16, 0x8F91, 0x6587, 0x4EF6, 0x65F6, 0x51FA, 0x9519, 0x3A, 0x20]"

text \<open>Line 296 ("error: ").\<close>
definition msg_error :: pystr where
  "msg_error = [0x9519, 0x8BEF, 0x3A, 0x20]"

subsection \<open>String operations\<close>

text \<open>\<open>sep.join(items)\<close>.\<close>
fun join_str :: "pystr \<Rightarrow> pystr list \<Rightarrow> pystr" where
  "join_str sep [] = []"
| "join_str sep [x] = x"
| "join_str sep (x # y # ys) = x @ sep @ join_str sep (y # ys)"

text \<open>\<open>old in s\<close>: \<open>old\<close> occurs in \<open>s\<close> as a contiguous substring.\<close>
fun contains_str :: "pystr \<Rightarrow> pystr \<Rightarrow> bool" where
  "contains_str [] old = (old = [])"
| "contains_str (c # cs) old = (prefix old (c # cs) \<or> contains_str cs old)"

text \<open>
  \<open>s.replace(old, new)\<close>: the occurrences of \<open>old\<close> are found from left to right
  and do not overlap. For an empty \<open>old\<close>, Python inserts \<open>new\<close> before every
  character and at the end.
\<close>
function replace_str :: "pystr \<Rightarrow> pystr \<Rightarrow> pystr \<Rightarrow> pystr" where
  "replace_str [] old new = (if old = [] then new else [])"
| "replace_str (c # cs) old new =
     (if old = [] then new @ c # replace_str cs old new
      else if prefix old (c # cs)
        then new @ replace_str (drop (length old) (c # cs)) old new
      else c # replace_str cs old new)"
  by pat_completeness auto
termination
  by (relation "measure (\<lambda>(s, old, new). length s)") (auto simp: Suc_le_eq)

text \<open>
  \<open>s.split(old)\<close> for a non-empty separator: the pieces between the occurrences that
  \<open>replace\<close> finds. It is not called by the source; it states what "every
  occurrence replaced, everything else unchanged" means.
\<close>
function split_str :: "pystr \<Rightarrow> pystr \<Rightarrow> pystr list" where
  "split_str [] old = [[]]"
| "split_str (c # cs) old =
     (if old \<noteq> [] \<and> prefix old (c # cs)
        then [] # split_str (drop (length old) (c # cs)) old
      else (case split_str cs old of
              [] \<Rightarrow> [[c]]
            | w # ws \<Rightarrow> (c # w) # ws))"
  by pat_completeness auto
termination
  by (relation "measure (\<lambda>(s, old). length s)") (auto simp: Suc_le_eq)

text \<open>
  Reading in text mode with the default \<open>newline=None\<close> (universal newlines): the
  sequences CR LF and a lone CR are both delivered as LF.
\<close>
fun translate_newlines :: "pystr \<Rightarrow> pystr" where
  "translate_newlines [] = []"
| "translate_newlines (c # cs) =
     (if c = CR then
        (case cs of
           [] \<Rightarrow> [LF]
         | d # ds \<Rightarrow>
             if d = LF then LF # translate_newlines ds else LF # translate_newlines cs)
      else c # translate_newlines cs)"

text \<open>
  A string can be written with \<open>encoding="utf-8"\<close> when it holds no surrogate code
  point (U+D800 to U+DFFF); a Python string holds code points up to U+10FFFF.
\<close>
definition encodable :: "pystr \<Rightarrow> bool" where
  "encodable s = list_all (\<lambda>c. c < 0xD800 \<or> (0xDFFF < c \<and> c \<le> 0x10FFFF)) s"

subsection \<open>posixpath\<close>

text \<open>The components of a path: \<open>path.split("/")\<close>.\<close>
fun split_on :: "nat \<Rightarrow> pystr \<Rightarrow> pystr list" where
  "split_on d [] = [[]]"
| "split_on d (c # cs) =
     (if c = d then [] # split_on d cs
      else (case split_on d cs of
              [] \<Rightarrow> [[c]]
            | w # ws \<Rightarrow> (c # w) # ws))"

text \<open>
  \<open>os.path.dirname(p)\<close>: the part of \<open>p\<close> up to and including its last slash,
  with the trailing slashes removed unless it consists of slashes only.
\<close>
definition dirname :: "pystr \<Rightarrow> pystr" where
  "dirname p =
     (let head = rev (dropWhile (\<lambda>c. c \<noteq> SLASH) (rev p))
      in if head \<noteq> [] \<and> \<not> list_all (\<lambda>c. c = SLASH) head
         then rev (dropWhile (\<lambda>c. c = SLASH) (rev head))
         else head)"

text \<open>\<open>os.path.join(a, b)\<close> for two arguments.\<close>
definition path_join :: "pystr \<Rightarrow> pystr \<Rightarrow> pystr" where
  "path_join a b =
     (if b \<noteq> [] \<and> hd b = SLASH then b
      else if a = [] \<or> last a = SLASH then a @ b
      else a @ [SLASH] @ b)"

section \<open>The filesystem\<close>

text \<open>
  The tools act on the local filesystem through \<open>open\<close>, \<open>os.path.exists\<close>,
  \<open>os.path.isdir\<close>, \<open>os.listdir\<close> and \<open>os.makedirs\<close>. The filesystem is a POSIX
  one without symbolic links, permissions or quotas: a table from absolute locations
  (lists of names, the root being the empty list) to nodes, and the working directory
  that relative paths start from. Every failure of an operation is determined by the
  shape of the table, by the path, or by the text read or written.

  The bytes of a file are represented by the text they decode to as UTF-8, or by
  \<open>Invalid_utf8\<close> when they do not decode.
\<close>

datatype filedata = Utf8 pystr | Invalid_utf8

datatype node = File filedata | Dir

record filesystem =
  entries :: "(pystr list \<times> node) list"
  cwd :: "pystr list"

datatype errno = ENOENT | ENOTDIR | EISDIR | EEXIST

text \<open>
  The exceptions (subclasses of \<open>Exception\<close>) that the modelled code can meet.
  \<open>OSError ENOENT\<close> is \<open>FileNotFoundError\<close>; \<open>ValueError\<close> is raised for a path
  with an embedded NUL; \<open>APIError\<close> stands for whatever the Model Client raises.
\<close>
datatype py_error =
    OSError errno
  | ValueError
  | UnicodeDecodeError
  | UnicodeEncodeError
  | KeyError pystr
  | AttributeError
  | APIError pystr

text \<open>A computation returns a value or raises, and leaves a filesystem behind.\<close>
type_synonym 'a res = "(py_error + 'a) \<times> filesystem"

definition node_at :: "filesystem \<Rightarrow> pystr list \<Rightarrow> node option" where
  "node_at fs loc = (if loc = [] then Some Dir else map_of (entries fs) loc)"

definition set_node :: "filesystem \<Rightarrow> pystr list \<Rightarrow> node \<Rightarrow> filesystem" where
  "set_node fs loc n = fs\<lparr>entries := AList.update loc n (entries fs)\<rparr>"

definition DOT :: pystr where "DOT = [46]"
definition DOTDOT :: pystr where "DOTDOT = [46, 46]"

text \<open>
  A name that a directory entry can have and that a path component denotes as such:
  not empty, without slash or NUL, and neither \<open>.\<close> nor \<open>..\<close>.
\<close>
definition plain_name :: "pystr \<Rightarrow> bool" where
  "plain_name c = (c \<noteq> [] \<and> SLASH \<notin> set c \<and> 0 \<notin> set c \<and> c \<noteq> DOT \<and> c \<noteq> DOTDOT)"

text \<open>
  Path resolution: from the location \<open>cur\<close>, follow the components. An empty
  component (from a doubled or trailing slash) and \<open>.\<close> stay in place, \<open>..\<close> goes
  to the parent; each of them needs \<open>cur\<close> to be a directory.
\<close>
fun walk :: "filesystem \<Rightarrow> pystr list \<Rightarrow> pystr list \<Rightarrow> py_error + pystr list" where
  "walk fs cur [] =
     (case node_at fs cur of None \<Rightarrow> Inl (OSError ENOENT) | Some _ \<Rightarrow> Inr cur)"
| "walk fs cur (c # cs) =
     (case node_at fs cur of
        None \<Rightarrow> Inl (OSError ENOENT)
      | Some (File _) \<Rightarrow> Inl (OSError ENOTDIR)
      | Some Dir \<Rightarrow>
          if c = [] \<or> c = DOT then walk fs cur cs
          else if c = DOTDOT then walk fs (butlast cur) cs
          else walk fs (cur @ [c]) cs)"

definition start_of :: "filesystem \<Rightarrow> pystr \<Rightarrow> pystr list" where
  "start_of fs path = (if path \<noteq> [] \<and> hd path = SLASH then [] else cwd fs)"

definition resolve :: "filesystem \<Rightarrow> pystr \<Rightarrow> py_error + pystr list" where
  "resolve fs path =
     (if 0 \<in> set path then Inl ValueError
      else if path = [] then Inl (OSError ENOENT)
      else walk fs (start_of fs path) (split_on SLASH path))"

text \<open>\<open>os.path.exists\<close> and \<open>os.path.isdir\<close> answer False on every error.\<close>
definition path_exists :: "filesystem \<Rightarrow> pystr \<Rightarrow> bool" where
  "path_exists fs path = (case resolve fs path of Inl _ \<Rightarrow> False | Inr _ \<Rightarrow> True)"

definition path_isdir :: "filesystem \<Rightarrow> pystr \<Rightarrow> bool" where
  "path_isdir fs path =
     (case resolve fs path of Inl _ \<Rightarrow> False | Inr loc \<Rightarrow> node_at fs loc = Some Dir)"

text \<open>The names of the immediate children of a location, in the table's order.\<close>
definition children :: "filesystem \<Rightarrow> pystr list \<Rightarrow> pystr list" where
  "children fs loc =
     map last (filter (\<lambda>k. k \<noteq> [] \<and> butlast k = loc) (map fst (entries fs)))"

text \<open>\<open>os.listdir(path)\<close>: the children's names, in no particular order.\<close>
definition listdir :: "filesystem \<Rightarrow> pystr \<Rightarrow> py_error + pystr list" where
  "listdir fs path =
     (case resolve fs path of
        Inl e \<Rightarrow> Inl e
      | Inr loc \<Rightarrow>
          (case node_at fs loc of
             Some Dir \<Rightarrow> Inr (children fs loc)
           | _ \<Rightarrow> Inl (OSError ENOTDIR)))"

text \<open>\<open>with open(path, "r", encoding="utf-8") as f: content = f.read()\<close>.\<close>
definition read_text :: "filesystem \<Rightarrow> pystr \<Rightarrow> py_error + pystr" where
  "read_text fs path =
     (case resolve fs path of
        Inl e \<Rightarrow> Inl e
      | Inr loc \<Rightarrow>
          (case node_at fs loc of
             None \<Rightarrow> Inl (OSError ENOENT)
           | Some Dir \<Rightarrow> Inl (OSError EISDIR)
           | Some (File Invalid_utf8) \<Rightarrow> Inl UnicodeDecodeError
           | Some (File (Utf8 s)) \<Rightarrow> Inr (translate_newlines s)))"

text \<open>
  \<open>open(path, "w", encoding="utf-8")\<close>: the parent must resolve to a directory and
  the last component must name a file or nothing; the file is created or truncated.
  The result is the location of the file.
\<close>
definition open_w :: "filesystem \<Rightarrow> pystr \<Rightarrow> (pystr list) res" where
  "open_w fs path =
     (if 0 \<in> set path then (Inl ValueError, fs)
      else if path = [] then (Inl (OSError ENOENT), fs)
      else
        (case walk fs (start_of fs path) (butlast (split_on SLASH path)) of
           Inl e \<Rightarrow> (Inl e, fs)
         | Inr par \<Rightarrow>
             (case node_at fs par of
                Some Dir \<Rightarrow>
                  (let c = last (split_on SLASH path) in
                   if c = [] \<or> c = DOT \<or> c = DOTDOT then (Inl (OSError EISDIR), fs)
                   else
                     (case node_at fs (par @ [c]) of
                        Some Dir \<Rightarrow> (Inl (OSError EISDIR), fs)
                      | _ \<Rightarrow> (Inr (par @ [c]), set_node fs (par @ [c]) (File (Utf8 [])))))
              | _ \<Rightarrow> (Inl (OSError ENOTDIR), fs))))"

text \<open>
  \<open>with open(path, "w", encoding="utf-8") as f: f.write(text)\<close>. On a POSIX system
  writing translates nothing. A text that cannot be encoded raises after the file has
  been truncated.
\<close>
definition write_text :: "filesystem \<Rightarrow> pystr \<Rightarrow> pystr \<Rightarrow> unit res" where
  "write_text fs path text =
     (case open_w fs path of
        (Inl e, fs') \<Rightarrow> (Inl e, fs')
      | (Inr loc, fs') \<Rightarrow>
          if encodable text then (Inr (), set_node fs' loc (File (Utf8 text)))
          else (Inl UnicodeEncodeError, fs'))"

text \<open>
  \<open>os.makedirs(path, exist_ok=True)\<close>: follow the components and create every
  directory that is missing; a component that is a file is an error.
\<close>
fun mkdirs :: "filesystem \<Rightarrow> pystr list \<Rightarrow> pystr list \<Rightarrow> unit res" where
  "mkdirs fs cur [] = (Inr (), fs)"
| "mkdirs fs cur (c # cs) =
     (if 0 \<in> set c then (Inl ValueError, fs)
      else
        (case node_at fs cur of
           Some Dir \<Rightarrow>
             if c = [] \<or> c = DOT then mkdirs fs cur cs
             else if c = DOTDOT then mkdirs fs (butlast cur) cs
             else
               (case node_at fs (cur @ [c]) of
                  None \<Rightarrow> mkdirs (set_node fs (cur @ [c]) Dir) (cur @ [c]) cs
                | Some Dir \<Rightarrow> mkdirs fs (cur @ [c]) cs
                | Some (File _) \<Rightarrow>
                    (Inl (OSError (if cs = [] then EEXIST else ENOTDIR)), fs))
         | _ \<Rightarrow> (Inl (OSError ENOTDIR), fs)))"

definition makedirs :: "filesystem \<Rightarrow> pystr \<Rightarrow> unit res" where
  "makedirs fs path =
     (if path = [] then (Inl (OSError ENOENT), fs)
      else mkdirs fs (start_of fs path) (split_on SLASH path))"

text \<open>A location that holds a directory or nothing, and one that holds a directory.\<close>
definition not_file :: "filesystem \<Rightarrow> pystr list \<Rightarrow> bool" where
  "not_file fs loc = (case node_at fs loc of Some (File d) \<Rightarrow> False | _ \<Rightarrow> True)"

definition is_dir :: "filesystem \<Rightarrow> pystr list \<Rightarrow> bool" where
  "is_dir fs loc = (node_at fs loc = Some Dir)"

text \<open>
  The table is well formed when the parent of every entry is a directory, as in every
  real filesystem.
\<close>
definition wf_fs :: "filesystem \<Rightarrow> bool" where
  "wf_fs fs = list_all (\<lambda>k. node_at fs (butlast k) = Some Dir) (map fst (entries fs))"

text \<open>
  Notions used to state where \<open>edit_file\<close> creates a file. Following a component
  from a location stays in place for an empty component and for \<open>.\<close>, goes to the
  parent for \<open>..\<close> and enters the child otherwise, as \<open>walk\<close> and \<open>mkdirs\<close> do.
\<close>
definition step_loc :: "pystr list \<Rightarrow> pystr \<Rightarrow> pystr list" where
  "step_loc cur c =
     (if c = [] \<or> c = DOT then cur else if c = DOTDOT then butlast cur else cur @ [c])"

text \<open>
  The locations passed when following the components \<open>cs\<close> from \<open>cur\<close>, \<open>cur\<close>
  included, and the location reached.
\<close>
primrec visit :: "pystr list \<Rightarrow> pystr list \<Rightarrow> pystr list list" where
  "visit cur [] = [cur]"
| "visit cur (c # cs) = cur # visit (step_loc cur c) cs"

definition land :: "pystr list \<Rightarrow> pystr list \<Rightarrow> pystr list" where
  "land cur cs = foldl step_loc cur cs"

text \<open>
  A path consists of the components that lead to its parent and of its last
  component. \<open>parent_of\<close> is the location of the parent, \<open>target_of\<close> the location
  that the path names, and \<open>on_the_way\<close> the locations passed from the start of the
  path to its parent, both included.
\<close>
definition parent_comps :: "pystr \<Rightarrow> pystr list" where
  "parent_comps path = butlast (split_on SLASH path)"

definition last_comp :: "pystr \<Rightarrow> pystr" where
  "last_comp path = last (split_on SLASH path)"

definition parent_of :: "filesystem \<Rightarrow> pystr \<Rightarrow> pystr list" where
  "parent_of fs path = land (start_of fs path) (parent_comps path)"

definition target_of :: "filesystem \<Rightarrow> pystr \<Rightarrow> pystr list" where
  "target_of fs path = parent_of fs path @ [last_comp path]"

definition on_the_way :: "filesystem \<Rightarrow> pystr \<Rightarrow> pystr list list" where
  "on_the_way fs path = visit (start_of fs path) (parent_comps path)"

section \<open>The Tool Executor\<close>

text \<open>
  Every function takes \<open>str_exc\<close>, the text \<open>str(e)\<close> of an exception, which the
  Python runtime and the operating system decide.
\<close>

text \<open>\<open>AIAgent._read_file\<close>, lines 133 to 149.\<close>
definition read_file :: "(py_error \<Rightarrow> pystr) \<Rightarrow> filesystem \<Rightarrow> pystr \<Rightarrow> pystr res" where
  "read_file str_exc fs path =
     (case read_text fs path of
        Inr content \<Rightarrow> (Inr (msg_file_pre @ path @ msg_content_suf @ content), fs)
      | Inl e \<Rightarrow>
          if e = OSError ENOENT then (Inr (msg_file_not_found @ path), fs)
          else (Inr (msg_read_err @ str_exc e), fs))"

text \<open>The line of one entry, lines 166 to 170.\<close>
definition item_line :: "filesystem \<Rightarrow> pystr \<Rightarrow> pystr \<Rightarrow> pystr" where
  "item_line fs path item =
     (if path_isdir fs (path_join path item) then tag_dir @ item @ [SLASH]
      else tag_file @ item)"

text \<open>\<open>AIAgent._list_files\<close>, lines 151 to 177.\<close>
definition list_files :: "(py_error \<Rightarrow> pystr) \<Rightarrow> filesystem \<Rightarrow> pystr \<Rightarrow> pystr res" where
  "list_files str_exc fs path =
     (if \<not> path_exists fs path then (Inr (msg_path_not_found @ path), fs)
      else
        (case listdir fs path of
           Inl e \<Rightarrow> (Inr (msg_list_err @ str_exc e), fs)
         | Inr names \<Rightarrow>
             (let items = map (item_line fs path) (sort names)
              in if items = [] then (Inr (msg_empty_dir @ path), fs)
                 else (Inr (path @ msg_content_suf @ join_str [LF] items), fs))))"

text \<open>\<open>AIAgent._edit_file\<close>, lines 179 to 217.\<close>
definition edit_file ::
  "(py_error \<Rightarrow> pystr) \<Rightarrow> filesystem \<Rightarrow> pystr \<Rightarrow> pystr \<Rightarrow> pystr \<Rightarrow> pystr res" where
  "edit_file str_exc fs path old_text new_text =
     (if path_exists fs path \<and> old_text \<noteq> [] then
        (case read_text fs path of
           Inl e \<Rightarrow> (Inr (msg_edit_err @ str_exc e), fs)
         | Inr content \<Rightarrow>
             if \<not> contains_str content old_text
               then (Inr (msg_text_not_found @ old_text), fs)
             else
               (case write_text fs path (replace_str content old_text new_text) of
                  (Inl e, fs') \<Rightarrow> (Inr (msg_edit_err @ str_exc e), fs')
                | (Inr _, fs') \<Rightarrow> (Inr (msg_edit_ok @ path), fs')))
      else
        (case (if dirname path \<noteq> [] then makedirs fs (dirname path) else (Inr (), fs)) of
           (Inl e, fs1) \<Rightarrow> (Inr (msg_edit_err @ str_exc e), fs1)
         | (Inr _, fs1) \<Rightarrow>
             (case write_text fs1 path new_text of
                (Inl e, fs2) \<Rightarrow> (Inr (msg_edit_err @ str_exc e), fs2)
              | (Inr _, fs2) \<Rightarrow> (Inr (msg_create_ok @ path), fs2))))"

text \<open>
  The arguments of a tool call: a mapping from parameter names to values. The tools'
  schemas declare every parameter a string; a key may be missing.
\<close>
type_synonym tool_input = "pystr \<rightharpoonup> pystr"

text \<open>\<open>tool_input[key]\<close> raises \<open>KeyError\<close> for a missing key.\<close>
definition subscript :: "tool_input \<Rightarrow> pystr \<Rightarrow> py_error + pystr" where
  "subscript inp key = (case inp key of None \<Rightarrow> Inl (KeyError key) | Some v \<Rightarrow> Inr v)"

text \<open>\<open>tool_input.get(key, default)\<close>.\<close>
definition get_default :: "tool_input \<Rightarrow> pystr \<Rightarrow> pystr \<Rightarrow> pystr" where
  "get_default inp key dflt = (case inp key of None \<Rightarrow> dflt | Some v \<Rightarrow> v)"

text \<open>The body of the \<open>try\<close> of \<open>AIAgent._execute_tool\<close>, lines 117 to 128.\<close>
definition execute_tool_body ::
  "(py_error \<Rightarrow> pystr) \<Rightarrow> filesystem \<Rightarrow> pystr \<Rightarrow> tool_input \<Rightarrow> pystr res" where
  "execute_tool_body str_exc fs tool_name inp =
     (if tool_name = ascii ''read_file'' then
        (case subscript inp (ascii ''path'') of
           Inl e \<Rightarrow> (Inl e, fs)
         | Inr path \<Rightarrow> read_file str_exc fs path)
      else if tool_name = ascii ''list_files'' then
        list_files str_exc fs (get_default inp (ascii ''path'') (ascii ''.''))
      else if tool_name = ascii ''edit_file'' then
        (case subscript inp (ascii ''path'') of
           Inl e \<Rightarrow> (Inl e, fs)
         | Inr path \<Rightarrow>
             (case subscript inp (ascii ''new_text'') of
                Inl e \<Rightarrow> (Inl e, fs)
              | Inr new_text \<Rightarrow>
                  edit_file str_exc fs path
                    (get_default inp (ascii ''old_text'') []) new_text))
      else (Inr (msg_unknown_tool @ tool_name), fs))"

text \<open>\<open>AIAgent._execute_tool\<close>, lines 105 to 131: the body under its
  \<open>except Exception\<close>.\<close>
definition execute_tool ::
  "(py_error \<Rightarrow> pystr) \<Rightarrow> filesystem \<Rightarrow> pystr \<Rightarrow> tool_input \<Rightarrow> pystr res" where
  "execute_tool str_exc fs tool_name inp =
     (case execute_tool_body str_exc fs tool_name inp of
        (Inl e, fs') \<Rightarrow> (Inr (msg_exec_pre @ tool_name @ msg_exec_err @ str_exc e), fs')
      | (Inr r, fs') \<Rightarrow> (Inr r, fs'))"

section \<open>The orchestration loop\<close>

text \<open>
  The blocks of a model response, \<open>response.content\<close>. The request of
  \<open>AIAgent.chat\<close> enables neither extended thinking nor server tools, so a block is
  a text block or a tool_use block (id, name, input).
\<close>
datatype block = Text pystr | ToolUse pystr pystr tool_input

text \<open>The transcript \<open>self.messages\<close>: dictionaries with a role and a content.\<close>
datatype role = User | Assistant

datatype content_block =
    TextBlock pystr
  | ToolUseBlock pystr pystr tool_input
  | ToolResultBlock pystr pystr

datatype content = Str pystr | Blocks "content_block list"

record message =
  role :: role
  content :: content

text \<open>
  What the agent does to the outside, in order: every Model Client call (with the
  transcript it sends) and every Tool Executor invocation (with the name and the
  arguments that line 115 logs).
\<close>
datatype event = ModelCall "message list" | ToolExec pystr tool_input

record agent =
  messages :: "message list"
  disk :: filesystem
  trace :: "event list"

text \<open>
  The Model Client, \<open>self.client.messages.create\<close>: it answers a transcript with a
  response or raises. The system prompt, the model name and the tool schemas are the
  same in every call.
\<close>
type_synonym client = "message list \<Rightarrow> py_error + block list"

text \<open>Lines 253 to 268: the assistant message built from the response.\<close>
fun block_dict :: "block \<Rightarrow> content_block" where
  "block_dict (Text t) = TextBlock t"
| "block_dict (ToolUse i n inp) = ToolUseBlock i n inp"

definition assistant_message :: "block list \<Rightarrow> message" where
  "assistant_message resp = \<lparr>role = Assistant, content = Blocks (map block_dict resp)\<rparr>"

text \<open>
  Lines 273 to 286: the tool calls of the response, executed in order; the results
  are collected in \<open>tool_results\<close>. An exception of the executor would leave the loop.
\<close>
fun run_tools ::
  "(py_error \<Rightarrow> pystr) \<Rightarrow> block list \<Rightarrow> content_block list \<Rightarrow> agent
     \<Rightarrow> (py_error + content_block list) \<times> agent" where
  "run_tools str_exc [] tool_results a = (Inr tool_results, a)"
| "run_tools str_exc (Text t # bs) tool_results a = run_tools str_exc bs tool_results a"
| "run_tools str_exc (ToolUse i n inp # bs) tool_results a =
     (case execute_tool str_exc (disk a) n inp of
        (Inl e, fs') \<Rightarrow> (Inl e, a\<lparr>disk := fs', trace := trace a @ [ToolExec n inp]\<rparr>)
      | (Inr r, fs') \<Rightarrow>
          run_tools str_exc bs (tool_results @ [ToolResultBlock i r])
            (a\<lparr>disk := fs', trace := trace a @ [ToolExec n inp]\<rparr>))"

text \<open>Line 293: \<open>response.content[0].text if response.content else ""\<close>; a tool_use
  block has no attribute \<open>text\<close>.\<close>
fun final_text :: "block list \<Rightarrow> py_error + pystr" where
  "final_text [] = Inr []"
| "final_text (Text t # bs) = Inr t"
| "final_text (ToolUse i n inp # bs) = Inl AttributeError"

datatype outcome = Return pystr agent | Continue agent

text \<open>One pass through the body of \<open>while True\<close>, lines 242 to 296.\<close>
definition chat_round :: "client \<Rightarrow> (py_error \<Rightarrow> pystr) \<Rightarrow> agent \<Rightarrow> outcome" where
  "chat_round client str_exc a =
     (let a1 = a\<lparr>trace := trace a @ [ModelCall (messages a)]\<rparr> in
      case client (messages a) of
        Inl e \<Rightarrow> Return (msg_error @ str_exc e) a1
      | Inr resp \<Rightarrow>
          (let a2 = a1\<lparr>messages := messages a1 @ [assistant_message resp]\<rparr> in
           case run_tools str_exc resp [] a2 of
             (Inl e, a3) \<Rightarrow> Return (msg_error @ str_exc e) a3
           | (Inr tool_results, a3) \<Rightarrow>
               if tool_results \<noteq> [] then
                 Continue (a3\<lparr>messages := messages a3 @
                             [\<lparr>role = User, content = Blocks tool_results\<rparr>]\<rparr>)
               else
                 (case final_text resp of
                    Inl e \<Rightarrow> Return (msg_error @ str_exc e) a3
                  | Inr t \<Rightarrow> Return t a3)))"

text \<open>The loop \<open>while True\<close>: it ends when a round returns, and may run forever.\<close>
partial_function (option) chat_loop ::
  "client \<Rightarrow> (py_error \<Rightarrow> pystr) \<Rightarrow> agent \<Rightarrow> (pystr \<times> agent) option" where
  "chat_loop client str_exc a =
     (case chat_round client str_exc a of
        Return t a' \<Rightarrow> Some (t, a')
      | Continue a' \<Rightarrow> chat_loop client str_exc a')"

text \<open>Line 229: the user's input is appended to the transcript.\<close>
definition with_user :: "agent \<Rightarrow> pystr \<Rightarrow> agent" where
  "with_user a user_input =
     a\<lparr>messages := messages a @ [\<lparr>role = User, content = Str user_input\<rparr>]\<rparr>"

text \<open>\<open>AIAgent.chat\<close>, lines 219 to 296.\<close>
definition chat ::
  "client \<Rightarrow> (py_error \<Rightarrow> pystr) \<Rightarrow> agent \<Rightarrow> pystr \<Rightarrow> (pystr \<times> agent) option" where
  "chat client str_exc a user_input = chat_loop client str_exc (with_user a user_input)"

subsection \<open>Notions used to state the properties of the loop\<close>

text \<open>The state of a turn after \<open>k\<close> rounds that all went on to another round.\<close>
fun after_rounds :: "client \<Rightarrow> (py_error \<Rightarrow> pystr) \<Rightarrow> nat \<Rightarrow> agent \<Rightarrow> agent option" where
  "after_rounds client str_exc 0 a = Some a"
| "after_rounds client str_exc (Suc k) a =
     (case chat_round client str_exc a of
        Return t a' \<Rightarrow> None
      | Continue a' \<Rightarrow> after_rounds client str_exc k a')"

text \<open>The tool_use blocks of a response, in order.\<close>
fun tool_uses :: "block list \<Rightarrow> (pystr \<times> pystr \<times> tool_input) list" where
  "tool_uses [] = []"
| "tool_uses (Text t # bs) = tool_uses bs"
| "tool_uses (ToolUse i n inp # bs) = (i, n, inp) # tool_uses bs"

text \<open>The text of the first text block of a response, or the empty string.\<close>
fun first_text :: "block list \<Rightarrow> pystr" where
  "first_text [] = []"
| "first_text (Text t # bs) = t"
| "first_text (ToolUse i n inp # bs) = first_text bs"

text \<open>
  The Tool Executor invoked once per tool use, in order, each invocation on the
  filesystem that the one before left: the strings returned, and the last filesystem.
\<close>
fun invoke_all ::
  "(py_error \<Rightarrow> pystr) \<Rightarrow> filesystem \<Rightarrow> (pystr \<times> pystr \<times> tool_input) list
     \<Rightarrow> pystr list \<times> filesystem" where
  "invoke_all str_exc fs0 [] = ([], fs0)"
| "invoke_all str_exc fs0 ((i, n, inp) # us) =
     (case execute_tool str_exc fs0 n inp of
        (Inl e, fs') \<Rightarrow> ([], fs')
      | (Inr r, fs') \<Rightarrow>
          (case invoke_all str_exc fs' us of (rs, fs'') \<Rightarrow> (r # rs, fs'')))"

text \<open>The tool_result block that answers a tool use.\<close>
fun result_block :: "(pystr \<times> pystr \<times> tool_input) \<Rightarrow> pystr \<Rightarrow> content_block" where
  "result_block (i, n, inp) r = ToolResultBlock i r"

fun exec_event :: "(pystr \<times> pystr \<times> tool_input) \<Rightarrow> event" where
  "exec_event (i, n, inp) = ToolExec n inp"

text \<open>The ids that the tool_result blocks of a message refer to, and the ids of the
  tool_use blocks of a message, in order.\<close>
fun result_ids :: "content_block list \<Rightarrow> pystr list" where
  "result_ids [] = []"
| "result_ids (ToolResultBlock i r # bs) = i # result_ids bs"
| "result_ids (b # bs) = result_ids bs"

fun use_ids :: "content_block list \<Rightarrow> pystr list" where
  "use_ids [] = []"
| "use_ids (ToolUseBlock i n inp # bs) = i # use_ids bs"
| "use_ids (b # bs) = use_ids bs"

section \<open>Concrete inputs\<close>

text \<open>
  A session that starts empty; a Model Client that first asks for the unknown tool
  \<open>nop\<close> and then answers in text, and one that raises at its second call.
\<close>
definition agent_empty :: agent where
  "agent_empty = \<lparr>messages = [], disk = \<lparr>entries = [], cwd = []\<rparr>, trace = []\<rparr>"

definition client0 :: client where
  "client0 ms = (if length ms = 1 then Inr [ToolUse (ascii ''t1'') (ascii ''nop'') Map.empty]
                 else Inr [Text (ascii ''ok'')])"

definition client1 :: client where
  "client1 ms = (if length ms = 1 then Inr [ToolUse (ascii ''t1'') (ascii ''nop'') Map.empty]
                 else Inl (APIError (ascii ''overloaded'')))"

definition str_exc0 :: "py_error \<Rightarrow> pystr" where
  "str_exc0 e = (case e of APIError m \<Rightarrow> m | _ \<Rightarrow> [])"

text \<open>The session after the user said \<open>hi\<close> and the tool round of either client.\<close>
definition agent1 :: agent where
  "agent1 = \<lparr>messages =
       [\<lparr>role = User, content = Str (ascii ''hi'')\<rparr>,
        assistant_message [ToolUse (ascii ''t1'') (ascii ''nop'') Map.empty],
        \<lparr>role = User, content =
           Blocks [ToolResultBlock (ascii ''t1'') (msg_unknown_tool @ ascii ''nop'')]\<rparr>],
     disk = \<lparr>entries = [], cwd = []\<rparr>,
     trace = [ModelCall [\<lparr>role = User, content = Str (ascii ''hi'')\<rparr>],
              ToolExec (ascii ''nop'') Map.empty]\<rparr>"

text \<open>
  A filesystem with the directory \<open>d\<close>, holding the file \<open>b\<close> and the directory
  \<open>a\<close>, and the empty directory \<open>e\<close>; the working directory is the root.
\<close>
definition fs_demo :: filesystem where
  "fs_demo = \<lparr>entries =
       [([ascii ''d''], Dir),
        ([ascii ''d'', ascii ''b''], File (Utf8 (ascii ''x''))),
        ([ascii ''d'', ascii ''a''], Dir),
        ([ascii ''e''], Dir)],
     cwd = []\<rparr>"

text \<open>
  A working directory with four files: \<open>dos\<close> holds x CR LF y, \<open>mac\<close> holds
  a CR b, \<open>bin\<close> holds bytes that are not UTF-8, \<open>abab\<close> holds abab.
\<close>
definition fs_text :: filesystem where
  "fs_text = \<lparr>entries =
       [([ascii ''dos''], File (Utf8 [120, 13, 10, 121])),
        ([ascii ''mac''], File (Utf8 [97, 13, 98])),
        ([ascii ''bin''], File Invalid_utf8),
        ([ascii ''abab''], File (Utf8 (ascii ''abab'')))],
     cwd = []\<rparr>"

text \<open>A working directory with the single file \<open>aaa\<close>, which holds aaa.\<close>
definition fs_overlap :: filesystem where
  "fs_overlap = \<lparr>entries = [([ascii ''aaa''], File (Utf8 (ascii ''aaa'')))], cwd = []\<rparr>"

section \<open>Properties\<close>

lemma ascii_simps: "ascii [] = []" "ascii (c # cs) = of_char c # ascii cs"
  by (simp_all add: ascii_def)

subsection \<open>The Tool Executor never raises\<close>

lemma read_file_returns: "\<exists>r. read_file se fs p = (Inr r, fs)"
  by (simp add: read_file_def split: sum.splits)

lemma list_files_returns: "\<exists>r. list_files se fs p = (Inr r, fs)"
  by (simp add: list_files_def Let_def split: sum.splits)

lemma edit_file_returns: "\<exists>r fs'. edit_file se fs p old new = (Inr r, fs')"
  by (simp add: edit_file_def split: sum.splits prod.splits)

lemma execute_tool_returns: "\<exists>r fs'. execute_tool se fs n inp = (Inr r, fs')"
  by (simp add: execute_tool_def split: sum.splits prod.splits)

text \<open>
  C4. For every tool name and every argument mapping, \<open>execute_tool\<close> returns a
  string and raises nothing; for every name other than \<open>read_file\<close>, \<open>list_files\<close>
  and \<open>edit_file\<close> the string is the unknown-tool message followed by the name, and
  the filesystem is left as it was.
\<close>
theorem execute_tool_never_raises:
  "(\<exists>r fs'. execute_tool str_exc fs0 tool_name inp = (Inr r, fs')) \<and>
   (tool_name \<notin> {ascii ''read_file'', ascii ''list_files'', ascii ''edit_file''} \<longrightarrow>
      execute_tool str_exc fs0 tool_name inp = (Inr (msg_unknown_tool @ tool_name), fs0))"
  using execute_tool_returns [of str_exc fs0 tool_name inp]
  by (simp add: execute_tool_def execute_tool_body_def)

theorem execute_tool_never_raises_witness:
  "ascii ''delete_file'' \<notin> {ascii ''read_file'', ascii ''list_files'', ascii ''edit_file''} \<and>
   execute_tool (\<lambda>e. []) \<lparr>entries = [], cwd = []\<rparr> (ascii ''delete_file'') Map.empty =
     (Inr (msg_unknown_tool @ ascii ''delete_file''), \<lparr>entries = [], cwd = []\<rparr>)"
  using execute_tool_never_raises
    [of "\<lambda>e. []" "\<lparr>entries = [], cwd = []\<rparr>" "ascii ''delete_file''" Map.empty]
  by (simp add: ascii_simps)

subsection \<open>The reading tools leave the filesystem alone\<close>

text \<open>
  C10. For every path, \<open>read_file\<close> and \<open>list_files\<close> leave the filesystem as it
  was, whatever they return, also when they are called through \<open>execute_tool\<close> with
  any argument mapping.
\<close>
theorem read_and_list_leave_filesystem:
  "snd (read_file str_exc fs0 path) = fs0 \<and>
   snd (list_files str_exc fs0 path) = fs0 \<and>
   snd (execute_tool str_exc fs0 (ascii ''read_file'') inp) = fs0 \<and>
   snd (execute_tool str_exc fs0 (ascii ''list_files'') inp) = fs0"
proof -
  have r: "snd (read_file str_exc fs0 p) = fs0" for p
    using read_file_returns [of str_exc fs0 p] by auto
  have l: "snd (list_files str_exc fs0 p) = fs0" for p
    using list_files_returns [of str_exc fs0 p] by auto
  have "snd (execute_tool str_exc fs0 (ascii ''read_file'') inp) = fs0"
  proof (cases "inp (ascii ''path'')")
    case None
    then show ?thesis
      by (simp add: execute_tool_def execute_tool_body_def subscript_def)
  next
    case (Some p)
    obtain t where "read_file str_exc fs0 p = (Inr t, fs0)"
      using read_file_returns [of str_exc fs0 p] by blast
    with Some show ?thesis
      by (simp add: execute_tool_def execute_tool_body_def subscript_def)
  qed
  moreover have "snd (execute_tool str_exc fs0 (ascii ''list_files'') inp) = fs0"
  proof -
    obtain t where "list_files str_exc fs0
        (get_default inp (ascii ''path'') (ascii ''.'')) = (Inr t, fs0)"
      using list_files_returns by blast
    then show ?thesis
      by (simp add: execute_tool_def execute_tool_body_def ascii_simps)
  qed
  ultimately show ?thesis using r l by simp
qed

subsection \<open>The orchestration loop\<close>

lemma invoke_all_length: "length (fst (invoke_all se fs0 us)) = length us"
proof (induction us arbitrary: fs0)
  case Nil
  then show ?case by simp
next
  case (Cons u us)
  obtain i n inp where u: "u = (i, n, inp)" by (cases u) auto
  obtain r fs' where e: "execute_tool se fs0 n inp = (Inr r, fs')"
    using execute_tool_returns by blast
  show ?case using Cons.IH [of fs'] by (cases "invoke_all se fs' us") (simp add: u e)
qed

text \<open>The loop over the response does what \<open>invoke_all\<close> says, and never raises.\<close>
lemma run_tools_invoke_all:
  "run_tools se resp acc a =
     (Inr (acc @ map2 result_block (tool_uses resp)
                   (fst (invoke_all se (disk a) (tool_uses resp)))),
      a\<lparr>disk := snd (invoke_all se (disk a) (tool_uses resp)),
        trace := trace a @ map exec_event (tool_uses resp)\<rparr>)"
proof (induction se resp acc a rule: run_tools.induct)
  case (1 se acc a)
  show ?case by simp
next
  case (2 se t bs acc a)
  then show ?case by simp
next
  case (3 se i n inp bs acc a)
  obtain r fs' where e: "execute_tool se (disk a) n inp = (Inr r, fs')"
    using execute_tool_returns by blast
  show ?case using 3 [OF e [symmetric]] e
    by (simp split: prod.splits)
qed

lemma final_text_no_tools: "tool_uses resp = [] \<Longrightarrow> final_text resp = Inr (first_text resp)"
  by (induction resp rule: tool_uses.induct) simp_all

lemma use_ids_block_dict: "use_ids (map block_dict resp) = map fst (tool_uses resp)"
  by (induction resp rule: tool_uses.induct) simp_all

lemma result_ids_map2:
  "length rs = length us \<Longrightarrow> result_ids (map2 result_block us rs) = map fst us"
  by (induction us rs rule: list_induct2') auto

lemma chat_loop_after_rounds:
  "after_rounds client se k a = Some s \<Longrightarrow> chat_loop client se a = chat_loop client se s"
proof (induction k arbitrary: a)
  case 0
  then show ?case by simp
next
  case (Suc k)
  then show ?case
    by (subst chat_loop.simps) (auto split: outcome.splits)
qed

lemma chat_round_raise:
  "client (messages a) = Inl e \<Longrightarrow>
   chat_round client se a =
     Return (msg_error @ se e) (a\<lparr>trace := trace a @ [ModelCall (messages a)]\<rparr>)"
  by (simp add: chat_round_def)

lemma chat_round_no_tools:
  "client (messages a) = Inr resp \<Longrightarrow> tool_uses resp = [] \<Longrightarrow>
   chat_round client se a = Return (first_text resp)
     (a\<lparr>messages := messages a @ [assistant_message resp],
        trace := trace a @ [ModelCall (messages a)]\<rparr>)"
  by (simp add: chat_round_def run_tools_invoke_all final_text_no_tools)

lemma chat_round_tools:
  "client (messages a) = Inr resp \<Longrightarrow> tool_uses resp \<noteq> [] \<Longrightarrow>
   chat_round client se a = Continue
     (a\<lparr>messages := messages a @
          [assistant_message resp,
           \<lparr>role = User, content = Blocks (map2 result_block (tool_uses resp)
              (fst (invoke_all se (disk a) (tool_uses resp))))\<rparr>],
        disk := snd (invoke_all se (disk a) (tool_uses resp)),
        trace := trace a @ ModelCall (messages a) # map exec_event (tool_uses resp)\<rparr>)"
proof -
  assume c: "client (messages a) = Inr resp" and n: "tool_uses resp \<noteq> []"
  have "map2 result_block (tool_uses resp)
          (fst (invoke_all se (disk a) (tool_uses resp))) \<noteq> []"
    using n invoke_all_length [of se "disk a" "tool_uses resp"]
    by (cases "tool_uses resp"; cases "fst (invoke_all se (disk a) (tool_uses resp))") auto
  then show ?thesis
    using c by (simp add: chat_round_def run_tools_invoke_all Let_def)
qed

text \<open>Every round starts with a Model Client call on the transcript it was given.\<close>
lemma chat_round_trace:
  "chat_round client se a = Return t a' \<or> chat_round client se a = Continue a' \<Longrightarrow>
   prefix (trace a @ [ModelCall (messages a)]) (trace a')"
  by (cases "client (messages a)")
     (auto simp: chat_round_def run_tools_invoke_all Let_def split: if_splits sum.splits)

lemma chat_loop_trace:
  "chat_loop client se a = Some y \<Longrightarrow>
   prefix (trace a @ [ModelCall (messages a)]) (trace (snd y))"
proof (induction rule: chat_loop.raw_induct [rotated 1, consumes 1])
  case (1 f client se a y)
  show ?case
  proof (cases "chat_round client se a")
    case (Return u b)
    with 1(2) have "snd y = b" by auto
    with Return show ?thesis using chat_round_trace [of client se a u b] by simp
  next
    case (Continue b)
    with 1(2) have "f client se b = Some y" by simp
    then have "prefix (trace b @ [ModelCall (messages b)]) (trace (snd y))" by (rule 1(1))
    then have "prefix (trace b) (trace (snd y))"
      using append_prefixD by blast
    moreover have "prefix (trace a @ [ModelCall (messages a)]) (trace b)"
      using Continue chat_round_trace [of client se a undefined b] by simp
    ultimately show ?thesis
      using prefix_order.trans by blast
  qed
qed

lemma exec_nop:
  "execute_tool se fs0 (ascii ''nop'') inp = (Inr (msg_unknown_tool @ ascii ''nop''), fs0)"
  by (simp add: execute_tool_def execute_tool_body_def ascii_simps)

lemma after_one_round_client0:
  "after_rounds client0 se (Suc 0) (with_user agent_empty (ascii ''hi'')) = Some agent1"
  by (simp add: client0_def with_user_def agent_empty_def agent1_def chat_round_def exec_nop)

lemma after_one_round_client1:
  "after_rounds client1 se (Suc 0) (with_user agent_empty (ascii ''hi'')) = Some agent1"
  by (simp add: client1_def with_user_def agent_empty_def agent1_def chat_round_def exec_nop)



text \<open>
  C2. When a turn has reached, after any number of tool rounds, a transcript that the
  Model Client answers with a response holding no tool_use block, \<open>chat\<close> returns
  the text of the first text block of that response, or the empty string when there
  is none; for that response the trace gains exactly one Model Client call and no
  Tool Executor invocation, the filesystem is untouched, and the transcript gains
  the assistant message.
\<close>
theorem chat_returns_text_without_tool_use:
  assumes "after_rounds client str_exc k (with_user a user_input) = Some s"
    and "client (messages s) = Inr resp"
    and "tool_uses resp = []"
  shows "chat client str_exc a user_input =
     Some (first_text resp,
           s\<lparr>messages := messages s @ [assistant_message resp],
             trace := trace s @ [ModelCall (messages s)]\<rparr>)"
proof -
  have "chat client str_exc a user_input = chat_loop client str_exc s"
    using assms(1) by (simp add: chat_def chat_loop_after_rounds)
  also have "\<dots> = Some (first_text resp,
           s\<lparr>messages := messages s @ [assistant_message resp],
             trace := trace s @ [ModelCall (messages s)]\<rparr>)"
    by (subst chat_loop.simps)
      (simp add: chat_round_no_tools [of client s resp, OF assms(2,3)])
  finally show ?thesis .
qed

theorem chat_returns_text_without_tool_use_witness:
  "after_rounds client0 str_exc0 (Suc 0) (with_user agent_empty (ascii ''hi'')) = Some agent1 \<and>
   client0 (messages agent1) = Inr [Text (ascii ''ok'')] \<and>
   tool_uses [Text (ascii ''ok'')] = [] \<and>
   chat client0 str_exc0 agent_empty (ascii ''hi'') =
     Some (ascii ''ok'',
           agent1\<lparr>messages := messages agent1 @ [assistant_message [Text (ascii ''ok'')]],
                  trace := trace agent1 @ [ModelCall (messages agent1)]\<rparr>)"
proof -
  have c: "client0 (messages agent1) = Inr [Text (ascii ''ok'')]"
    by (simp add: client0_def agent1_def)
  show ?thesis
    using chat_returns_text_without_tool_use
      [of client0 str_exc0 "Suc 0" agent_empty "ascii ''hi''" agent1 "[Text (ascii ''ok'')]"]
      c after_one_round_client0 [of str_exc0]
    by simp
qed

text \<open>
  C3. When a turn has reached, after any number of tool rounds, a transcript on which
  the Model Client call raises, \<open>chat\<close> returns the error prefix followed by the
  text of the exception; the transcript it leaves is the one sent with the failing
  call (no assistant message is added for it), and the filesystem is the one the
  earlier rounds left.
\<close>
theorem chat_returns_error_text_when_model_call_raises:
  assumes "after_rounds client str_exc k (with_user a user_input) = Some s"
    and "client (messages s) = Inl e"
  shows "\<exists>a'. chat client str_exc a user_input = Some (msg_error @ str_exc e, a') \<and>
     messages a' = messages s \<and>
     disk a' = disk s \<and>
     trace a' = trace s @ [ModelCall (messages s)]"
proof -
  have "chat client str_exc a user_input = chat_loop client str_exc s"
    using assms(1) by (simp add: chat_def chat_loop_after_rounds)
  also have "\<dots> = Some (msg_error @ str_exc e,
           s\<lparr>trace := trace s @ [ModelCall (messages s)]\<rparr>)"
    by (subst chat_loop.simps) (simp add: chat_round_raise [of client s e, OF assms(2)])
  finally show ?thesis by simp
qed

theorem chat_returns_error_text_when_model_call_raises_witness:
  "after_rounds client1 str_exc0 (Suc 0) (with_user agent_empty (ascii ''hi'')) = Some agent1 \<and>
   client1 (messages agent1) = Inl (APIError (ascii ''overloaded'')) \<and>
   (\<exists>a'. chat client1 str_exc0 agent_empty (ascii ''hi'') =
            Some (msg_error @ ascii ''overloaded'', a') \<and>
          messages a' = messages agent1)"
proof -
  have c: "client1 (messages agent1) = Inl (APIError (ascii ''overloaded''))"
    by (simp add: client1_def agent1_def)
  show ?thesis
    using chat_returns_error_text_when_model_call_raises
      [of client1 str_exc0 "Suc 0" agent_empty "ascii ''hi''" agent1
          "APIError (ascii ''overloaded'')"]
      c after_one_round_client1 [of str_exc0]
    by (auto simp: str_exc0_def)
qed

subsection \<open>Paths and listings\<close>

lemma split_on_not_Nil: "split_on d s \<noteq> []"
  by (induction s) (auto split: list.splits)

lemma split_on_append_sep: "split_on d (a @ d # b) = split_on d a @ split_on d b"
proof (induction a)
  case Nil
  show ?case by simp
next
  case (Cons c a)
  then show ?case
    using split_on_not_Nil [of d a] by (cases "split_on d a") auto
qed

lemma split_on_no_sep: "d \<notin> set s \<Longrightarrow> split_on d s = [s]"
  by (induction s) auto

lemma walk_append:
  "walk fs cur (cs @ cs2) =
     (case walk fs cur cs of Inl e \<Rightarrow> Inl e | Inr loc \<Rightarrow> walk fs loc cs2)"
proof (induction cs arbitrary: cur)
  case Nil
  show ?case by (cases cs2) (auto split: option.splits node.splits)
next
  case (Cons c cs)
  then show ?case by (auto split: option.splits node.splits)
qed

lemma walk_Inr_exists: "walk fs cur cs = Inr loc \<Longrightarrow> node_at fs loc \<noteq> None"
  by (induction cs arbitrary: cur) (auto split: option.splits node.splits if_splits)

lemma walk_name:
  "node_at fs loc = Some Dir \<Longrightarrow> plain_name c \<Longrightarrow>
   walk fs loc [c] = (if node_at fs (loc @ [c]) = None then Inl (OSError ENOENT) else Inr (loc @ [c]))"
  by (auto simp: plain_name_def split: option.splits)

lemma walk_empty_comp:
  "walk fs cur [[]] = Inr loc \<Longrightarrow> cur = loc \<and> node_at fs loc = Some Dir"
  by (auto split: option.splits node.splits)

lemma start_of_append: "p \<noteq> [] \<Longrightarrow> start_of fs (p @ x) = start_of fs p"
  by (cases p) (simp_all add: start_of_def)

lemma resolve_child:
  assumes r: "resolve fs path = Inr loc" and d: "node_at fs loc = Some Dir"
    and p: "plain_name item"
  shows "resolve fs (path_join path item) =
     (if node_at fs (loc @ [item]) = None then Inl (OSError ENOENT) else Inr (loc @ [item]))"
proof -
  from r have ne: "path \<noteq> []" and nul: "0 \<notin> set path"
    and w: "walk fs (start_of fs path) (split_on SLASH path) = Inr loc"
    by (auto simp: resolve_def split: if_splits)
  from p have i: "item \<noteq> []" "hd item \<noteq> SLASH" "0 \<notin> set item" "SLASH \<notin> set item"
    by (cases item; auto simp: plain_name_def)+
  have "\<exists>cs. split_on SLASH (path_join path item) = cs @ [item] \<and>
          walk fs (start_of fs path) cs = Inr loc \<and>
          (\<exists>x. path_join path item = path @ x \<and> 0 \<notin> set x)"
  proof (cases "last path = SLASH")
    case True
    then obtain q where q: "path = q @ [SLASH]"
      using ne by (metis append_butlast_last_id)
    have j: "path_join path item = path @ item"
      using True ne i by (simp add: path_join_def)
    have "walk fs (start_of fs path) (split_on SLASH q @ [[]]) = Inr loc"
      using w by (simp add: q split_on_append_sep)
    then obtain l' where l': "walk fs (start_of fs path) (split_on SLASH q) = Inr l'"
      and "walk fs l' [[]] = Inr loc"
      by (auto simp: walk_append split: sum.splits)
    then have "l' = loc" using walk_empty_comp by blast
    moreover have "split_on SLASH (path @ item) = split_on SLASH q @ [item]"
      using i by (simp add: q split_on_append_sep split_on_no_sep)
    ultimately show ?thesis using l' j i
      by (intro exI [of _ "split_on SLASH q"] conjI exI [of _ item]) simp_all
  next
    case False
    have j: "path_join path item = path @ SLASH # item"
      using False ne i by (simp add: path_join_def)
    have "split_on SLASH (path @ SLASH # item) = split_on SLASH path @ [item]"
      using i by (simp add: split_on_append_sep split_on_no_sep)
    moreover have "0 \<notin> set (SLASH # item)" using i by (simp add: SLASH_def)
    ultimately show ?thesis using w j
      by (intro exI [of _ "split_on SLASH path"] conjI exI [of _ "SLASH # item"]) simp_all
  qed
  then obtain cs x where cs: "split_on SLASH (path_join path item) = cs @ [item]"
    and wc: "walk fs (start_of fs path) cs = Inr loc"
    and x: "path_join path item = path @ x" "0 \<notin> set x"
    by blast
  have st: "start_of fs (path_join path item) = start_of fs path"
    by (simp only: x(1) start_of_append [OF ne])
  have "walk fs (start_of fs path) (cs @ [item]) = walk fs loc [item]"
    by (simp only: walk_append wc sum.case)
  then have "walk fs (start_of fs (path_join path item))
      (split_on SLASH (path_join path item)) = walk fs loc [item]"
    by (simp only: st cs)
  moreover have "0 \<notin> set (path_join path item)" "path_join path item \<noteq> []"
    using x nul ne by auto
  ultimately show ?thesis
    by (simp add: resolve_def walk_name [OF d p] del: walk.simps)
qed

lemma path_isdir_child:
  assumes "resolve fs path = Inr loc" and "node_at fs loc = Some Dir" and "plain_name item"
  shows "path_isdir fs (path_join path item) = (node_at fs (loc @ [item]) = Some Dir)"
  using resolve_child [OF assms] by (auto simp: path_isdir_def)


lemma list_files_listing:
  assumes "listdir fs0 path = Inr names"
  shows "path_exists fs0 path"
    and "names = [] \<Longrightarrow> list_files se fs0 path = (Inr (msg_empty_dir @ path), fs0)"
    and "names \<noteq> [] \<Longrightarrow> list_files se fs0 path =
      (Inr (path @ msg_content_suf @ join_str [LF] (map (item_line fs0 path) (sort names))), fs0)"
proof -
  show e: "path_exists fs0 path"
    using assms by (auto simp: listdir_def path_exists_def split: sum.splits)
  show "names = [] \<Longrightarrow> list_files se fs0 path = (Inr (msg_empty_dir @ path), fs0)"
    using assms e by (simp add: list_files_def)
  assume "names \<noteq> []"
  then have "sort names \<noteq> []"
    by (metis length_sort length_0_conv)
  then show "list_files se fs0 path =
      (Inr (path @ msg_content_suf @ join_str [LF] (map (item_line fs0 path) (sort names))), fs0)"
    using assms e by (simp add: list_files_def Let_def)
qed


lemma demo_resolve_d: "resolve fs_demo (ascii ''d'') = Inr [ascii ''d'']"
  by (simp add: resolve_def fs_demo_def start_of_def node_at_def ascii_simps SLASH_def DOT_def DOTDOT_def)

lemma demo_listdir_d: "listdir fs_demo (ascii ''d'') = Inr [ascii ''b'', ascii ''a'']"
  by (simp add: listdir_def demo_resolve_d)
     (simp add: fs_demo_def node_at_def children_def ascii_simps)

lemma demo_resolve_e: "resolve fs_demo (ascii ''e'') = Inr [ascii ''e'']"
  by (simp add: resolve_def fs_demo_def start_of_def node_at_def ascii_simps SLASH_def DOT_def DOTDOT_def)

lemma demo_listdir_e: "listdir fs_demo (ascii ''e'') = Inr []"
  by (simp add: listdir_def demo_resolve_e)
     (simp add: fs_demo_def node_at_def children_def ascii_simps)

lemma demo_not_exists: "\<not> path_exists fs_demo (ascii ''nowhere'')"
  by (simp add: path_exists_def resolve_def fs_demo_def start_of_def node_at_def ascii_simps
      SLASH_def DOT_def DOTDOT_def)


subsection \<open>Strings\<close>

lemma contains_str_iff: "contains_str s old \<longleftrightarrow> (\<exists>ps ss. s = ps @ old @ ss)"
proof (induction s)
  case Nil
  show ?case by auto
next
  case (Cons c cs)
  show ?case
  proof
    assume "contains_str (c # cs) old"
    then consider "prefix old (c # cs)" | "contains_str cs old" by auto
    then show "\<exists>ps ss. c # cs = ps @ old @ ss"
    proof cases
      case 1
      then obtain ss where "c # cs = old @ ss" by (auto simp: prefix_def)
      then have "c # cs = [] @ old @ ss" by simp
      then show ?thesis by blast
    next
      case 2
      then obtain ps ss where "cs = ps @ old @ ss" using Cons.IH by blast
      then have "c # cs = (c # ps) @ old @ ss" by simp
      then show ?thesis by blast
    qed
  next
    assume "\<exists>ps ss. c # cs = ps @ old @ ss"
    then obtain ps ss where e: "c # cs = ps @ old @ ss" by blast
    show "contains_str (c # cs) old"
    proof (cases ps)
      case Nil
      with e have "prefix old (c # cs)" by (simp add: prefix_def)
      then show ?thesis by simp
    next
      case (Cons p ps')
      with e have "cs = ps' @ old @ ss" by simp
      then have "contains_str cs old" using Cons.IH by blast
      then show ?thesis by simp
    qed
  qed
qed

lemma split_str_not_Nil: "split_str s old \<noteq> []"
  by (induction s old rule: split_str.induct) (auto split: list.splits)

lemma join_split_str: "join_str old (split_str s old) = s"
proof (induction s old rule: split_str.induct)
  case (1 old)
  show ?case by simp
next
  case (2 c cs old)
  show ?case
  proof (cases "old \<noteq> [] \<and> prefix old (c # cs)")
    case True
    then obtain r where r: "c # cs = old @ r" by (auto simp: prefix_def)
    then have d: "drop (length old) (c # cs) = r" by (metis append_eq_conv_conj)
    obtain w ws where w: "split_str r old = w # ws"
      using split_str_not_Nil [of r old] by (cases "split_str r old") auto
    have j: "join_str old (split_str r old) = r" using 2(1) True d by simp
    have "split_str (c # cs) old = [] # w # ws" using True d w by simp
    then have "join_str old (split_str (c # cs) old) = old @ r" using j w by simp
    then show ?thesis using r by simp
  next
    case False
    obtain w ws where w: "split_str cs old = w # ws"
      using split_str_not_Nil [of cs old] by (cases "split_str cs old") auto
    have "join_str old (w # ws) = cs" using 2(2) False w by simp
    then have "join_str old ((c # w) # ws) = c # cs" by (cases ws) auto
    moreover have "split_str (c # cs) old = (c # w) # ws" using False w by auto
    ultimately show ?thesis by simp
  qed
qed

lemma replace_split_str:
  "old \<noteq> [] \<Longrightarrow> replace_str s old new = join_str new (split_str s old)"
proof (induction s old new rule: replace_str.induct)
  case (1 old new)
  then show ?case by simp
next
  case (2 c cs old new)
  show ?case
  proof (cases "prefix old (c # cs)")
    case True
    let ?r = "drop (length old) (c # cs)"
    obtain w ws where w: "split_str ?r old = w # ws"
      using split_str_not_Nil [of ?r old] by (cases "split_str ?r old") auto
    have "replace_str ?r old new = join_str new (split_str ?r old)"
      using 2 True by simp
    moreover have "split_str (c # cs) old = [] # w # ws" using True 2(4) w by simp
    moreover have "replace_str (c # cs) old new = new @ replace_str ?r old new"
      using True 2(4) by simp
    ultimately show ?thesis using w by simp
  next
    case False
    obtain w ws where w: "split_str cs old = w # ws"
      using split_str_not_Nil [of cs old] by (cases "split_str cs old") auto
    have "replace_str cs old new = join_str new (w # ws)"
      using 2 False w by simp
    moreover have "join_str new ((c # w) # ws) = c # join_str new (w # ws)"
      by (cases ws) auto
    moreover have "split_str (c # cs) old = (c # w) # ws" using False w by auto
    moreover have "replace_str (c # cs) old new = c # replace_str cs old new"
      using False 2(4) by simp
    ultimately show ?thesis by simp
  qed
qed

lemma translate_newlines_no_CR: "CR \<notin> set s \<Longrightarrow> translate_newlines s = s"
  by (induction s rule: translate_newlines.induct) (auto split: list.splits)


lemma contains_str_length: "contains_str s old \<Longrightarrow> length old \<le> length s"
  by (auto simp: contains_str_iff)

lemma hd_split_str_prefix: "split_str s old = w # ws \<Longrightarrow> prefix w s"
proof -
  assume a: "split_str s old = w # ws"
  have "join_str old (w # ws) = s" using join_split_str [of old s] a by simp
  then show ?thesis by (cases ws) (auto simp: prefix_def)
qed

lemma split_str_segments_clean:
  "old \<noteq> [] \<Longrightarrow> seg \<in> set (split_str s old) \<Longrightarrow> \<not> contains_str seg old"
proof (induction s old arbitrary: seg rule: split_str.induct)
  case (1 old)
  then show ?case by simp
next
  case (2 c cs old)
  show ?case
  proof (cases "prefix old (c # cs)")
    case True
    then have "split_str (c # cs) old = [] # split_str (drop (length old) (c # cs)) old"
      using 2(3) by simp
    with 2(4) consider "seg = []" | "seg \<in> set (split_str (drop (length old) (c # cs)) old)"
      by auto
    then show ?thesis
    proof cases
      case 1
      then show ?thesis using 2(3) by simp
    next
      case 2
      then show ?thesis using "2.IH"(1) [of seg] True "2.prems"(1) by simp
    qed
  next
    case False
    obtain w ws where w: "split_str cs old = w # ws"
      using split_str_not_Nil [of cs old] by (cases "split_str cs old") auto
    then have sp: "split_str (c # cs) old = (c # w) # ws" using False by auto
    with 2(4) consider "seg = c # w" | "seg \<in> set ws" by auto
    then show ?thesis
    proof cases
      case 1
      have "\<not> contains_str w old" using "2.IH"(2) [of w] False w "2.prems"(1) by simp
      moreover have "\<not> prefix old (c # w)"
      proof
        assume "prefix old (c # w)"
        moreover have "prefix (c # w) (c # cs)"
          using hd_split_str_prefix [OF w] by simp
        ultimately have "prefix old (c # cs)" using prefix_order.trans by blast
        with False show False by simp
      qed
      ultimately show ?thesis using 1 by simp
    next
      case 2
      then show ?thesis using "2.IH"(2) [of seg] False w "2.prems"(1) by simp
    qed
  qed
qed

lemma split_str_absent: "old \<noteq> [] \<Longrightarrow> \<not> contains_str s old \<Longrightarrow> split_str s old = [s]"
proof (induction s)
  case Nil
  then show ?case by simp
next
  case (Cons c cs)
  then show ?case by auto
qed

lemma split_str_present:
  "old \<noteq> [] \<Longrightarrow> contains_str s old \<Longrightarrow> 2 \<le> length (split_str s old)"
proof (induction s old rule: split_str.induct)
  case (1 old)
  then show ?case by simp
next
  case (2 c cs old)
  show ?case
  proof (cases "prefix old (c # cs)")
    case True
    then show ?thesis
      using 2(3) split_str_not_Nil [of "drop (length old) (c # cs)" old]
      by (cases "split_str (drop (length old) (c # cs)) old") auto
  next
    case False
    obtain w ws where w: "split_str cs old = w # ws"
      using split_str_not_Nil [of cs old] by (cases "split_str cs old") auto
    have "contains_str cs old" using 2(4) False by simp
    then have "2 \<le> length (split_str cs old)" using "2.IH"(2) False w 2(3) by simp
    then show ?thesis using False w by auto
  qed
qed


lemma butlast_no_room: "old \<noteq> [] \<Longrightarrow> \<not> contains_str (butlast old) old"
  using contains_str_length [of "butlast old" old] by (cases old rule: rev_cases) auto

lemma join_str_Cons2: "ws \<noteq> [] \<Longrightarrow> join_str sep (w # ws) = w @ sep @ join_str sep ws"
  by (cases ws) simp_all

lemma split_str_leftmost:
  "old \<noteq> [] \<Longrightarrow> Suc i < length (split_str s old) \<Longrightarrow>
   \<not> contains_str (split_str s old ! i @ butlast old) old"
proof (induction s old arbitrary: i rule: split_str.induct)
  case (1 old)
  then show ?case by simp
next
  case (2 c cs old)
  show ?case
  proof (cases "prefix old (c # cs)")
    case True
    let ?r = "drop (length old) (c # cs)"
    have sp: "split_str (c # cs) old = [] # split_str ?r old"
      using True "2.prems"(1) by simp
    show ?thesis
    proof (cases i)
      case 0
      then show ?thesis using sp butlast_no_room [OF "2.prems"(1)] by simp
    next
      case (Suc j)
      then have "Suc j < length (split_str ?r old)" using "2.prems"(2) sp by simp
      then have "\<not> contains_str (split_str ?r old ! j @ butlast old) old"
        using "2.IH"(1) [of j] True "2.prems"(1) by simp
      then show ?thesis using sp Suc by simp
    qed
  next
    case False
    obtain w ws where w: "split_str cs old = w # ws"
      using split_str_not_Nil [of cs old] by (cases "split_str cs old") auto
    then have sp: "split_str (c # cs) old = (c # w) # ws" using False by auto
    show ?thesis
    proof (cases i)
      case 0
      then have wsne: "ws \<noteq> []" using "2.prems"(2) sp by auto
      have "Suc 0 < length (split_str cs old)" using wsne w by (cases ws) auto
      then have a: "\<not> contains_str (w @ butlast old) old"
        using "2.IH"(2) [of 0] False w "2.prems"(1) by simp
      have "cs = join_str old (w # ws)" using join_split_str [of old cs] w by simp
      then have cs: "cs = w @ old @ join_str old ws" using wsne by (simp add: join_str_Cons2)
      obtain zs where z: "old = butlast old @ zs"
        using "2.prems"(1) by (metis append_butlast_last_id)
      have "c # cs = (c # w @ butlast old) @ (zs @ join_str old ws)"
        using cs z by (metis append.assoc append_Cons)
      then have "prefix (c # w @ butlast old) (c # cs)"
        by (metis prefixI)
      moreover have "\<not> prefix old (c # cs)" by (rule False)
      ultimately have b: "\<not> prefix old (c # w @ butlast old)"
        using prefix_order.trans by blast
      show ?thesis using 0 sp a b by simp
    next
      case (Suc j)
      then have "Suc (Suc j) < length (split_str cs old)" using "2.prems"(2) sp w by simp
      then have "\<not> contains_str (split_str cs old ! Suc j @ butlast old) old"
        using "2.IH"(2) [of "Suc j"] False w "2.prems"(1) by simp
      then show ?thesis using sp Suc w by simp
    qed
  qed
qed

text \<open>
  Whatever pieces meet the conditions that \<open>split_str\<close> meets are the pieces of
  \<open>split_str\<close>: the decomposition is determined by the text.
\<close>
lemma split_str_piece:
  assumes "old \<noteq> []" and "\<not> contains_str (w @ butlast old) old"
  shows "split_str (w @ old @ rest) old = w # split_str rest old"
  using assms(2)
proof (induction w)
  case Nil
  then show ?case using assms(1) by (cases old) simp_all
next
  case (Cons c w)
  have a: "\<not> prefix old (c # w @ butlast old)" and b: "\<not> contains_str (w @ butlast old) old"
    using Cons.prems by simp_all
  have "\<not> prefix old (c # w @ old @ rest)"
  proof
    assume p: "prefix old (c # w @ old @ rest)"
    have "c # w @ old @ rest = (c # w @ butlast old) @ ([last old] @ rest)"
      using assms(1) by (metis append.assoc append_Cons append_butlast_last_id)
    moreover have "length old \<le> length (c # w @ butlast old)" by simp
    ultimately have "prefix old (c # w @ butlast old)"
      using p by (metis prefix_length_prefix prefixI)
    then show False using a by simp
  qed
  then show ?case using Cons.IH [OF b] by simp
qed

lemma split_str_unique:
  assumes "old \<noteq> []" and "segs \<noteq> []"
    and "\<forall>i. Suc i < length segs \<longrightarrow> \<not> contains_str (segs ! i @ butlast old) old"
    and "\<not> contains_str (last segs) old"
  shows "split_str (join_str old segs) old = segs"
  using assms(2-4)
proof (induction segs)
  case Nil
  then show ?case by simp
next
  case (Cons w ws)
  show ?case
  proof (cases ws)
    case Nil
    then show ?thesis using Cons.prems(3) split_str_absent [OF assms(1), of w] by simp
  next
    case (Cons v vs)
    have 1: "\<not> contains_str (w @ butlast old) old"
      using Cons.prems(2) Cons by auto
    have 2: "\<forall>i. Suc i < length ws \<longrightarrow> \<not> contains_str (ws ! i @ butlast old) old"
    proof (intro allI impI)
      fix i assume "Suc i < length ws"
      then have "Suc (Suc i) < length (w # ws)" by simp
      then have "\<not> contains_str ((w # ws) ! Suc i @ butlast old) old"
        using Cons.prems(2) by blast
      then show "\<not> contains_str (ws ! i @ butlast old) old" by simp
    qed
    have 3: "\<not> contains_str (last ws) old" using Cons.prems(3) Cons by simp
    have "ws \<noteq> []" using Cons by simp
    then have "split_str (join_str old ws) old = ws" using Cons.IH 2 3 by blast
    moreover have "join_str old (w # ws) = w @ old @ join_str old ws"
      using Cons by simp
    ultimately show ?thesis using split_str_piece [OF assms(1) 1] by simp
  qed
qed


subsection \<open>Writing to an existing file\<close>

lemma wf_fs_parent:
  assumes "wf_fs fs" and "node_at fs k \<noteq> None"
  shows "node_at fs (butlast k) = Some Dir"
proof (cases "k = []")
  case True
  then show ?thesis by (simp add: node_at_def)
next
  case False
  with assms(2) obtain n where "map_of (entries fs) k = Some n"
    by (auto simp: node_at_def)
  then have "k \<in> set (map fst (entries fs))"
    by (metis map_of_eq_None_iff option.distinct(1) set_map)
  with assms(1) show ?thesis by (auto simp: wf_fs_def list_all_iff)
qed

lemma node_at_set_node:
  "loc \<noteq> [] \<Longrightarrow> node_at (set_node fs loc n) q = (if q = loc then Some n else node_at fs q)"
  by (simp add: node_at_def set_node_def update_conv')

lemma cwd_set_node [simp]: "cwd (set_node fs loc n) = cwd fs"
  by (simp add: set_node_def)

lemma set_node_twice [simp]: "set_node (set_node fs loc m) loc n = set_node fs loc n"
  by (simp add: set_node_def)

lemma walk_to_file:
  assumes wf: "wf_fs fs" and w: "walk fs cur cs = Inr loc"
    and f: "node_at fs loc = Some (File d)" and ne: "cs \<noteq> []"
  shows "\<exists>par c. loc = par @ [c] \<and> walk fs cur (butlast cs) = Inr par \<and> last cs = c \<and>
           node_at fs par = Some Dir \<and> c \<noteq> [] \<and> c \<noteq> DOT \<and> c \<noteq> DOTDOT"
proof -
  obtain cs' c where cs: "cs = cs' @ [c]"
    using ne by (metis append_butlast_last_id)
  from w obtain l' where l': "walk fs cur cs' = Inr l'" and s: "walk fs l' [c] = Inr loc"
    by (auto simp: cs walk_append split: sum.splits)
  from s have dl: "node_at fs l' = Some Dir"
    by (auto split: option.splits node.splits)
  have nd: "c \<noteq> [] \<and> c \<noteq> DOT"
    using s dl f by (auto split: option.splits if_splits)
  have ndd: "c \<noteq> DOTDOT"
  proof
    assume c: "c = DOTDOT"
    then have "loc = butlast l'"
      using s dl by (auto simp: DOTDOT_def DOT_def split: option.splits if_splits)
    moreover have "node_at fs (butlast l') = Some Dir"
      using wf_fs_parent [OF wf, of l'] dl by simp
    ultimately show False using f by simp
  qed
  have "loc = l' @ [c]"
    using s dl nd ndd by (auto split: option.splits if_splits)
  then show ?thesis using l' dl nd ndd cs by simp
qed

lemma open_w_existing_file:
  assumes wf: "wf_fs fs" and r: "resolve fs path = Inr loc"
    and f: "node_at fs loc = Some (File d)"
  shows "open_w fs path = (Inr loc, set_node fs loc (File (Utf8 [])))"
proof -
  from r have ne: "path \<noteq> []" and nul: "0 \<notin> set path"
    and w: "walk fs (start_of fs path) (split_on SLASH path) = Inr loc"
    by (auto simp: resolve_def split: if_splits)
  obtain par c where pc: "loc = par @ [c]"
    "walk fs (start_of fs path) (butlast (split_on SLASH path)) = Inr par"
    "last (split_on SLASH path) = c" "node_at fs par = Some Dir"
    "c \<noteq> []" "c \<noteq> DOT" "c \<noteq> DOTDOT"
    using walk_to_file [OF wf w f split_on_not_Nil] by blast
  show ?thesis
    using ne nul pc f by (simp add: open_w_def)
qed

lemma write_text_existing_file:
  assumes "wf_fs fs" and "resolve fs path = Inr loc" and "node_at fs loc = Some (File d)"
    and "encodable text"
  shows "write_text fs path text = (Inr (), set_node fs loc (File (Utf8 text)))"
  using assms(4) by (simp add: write_text_def open_w_existing_file [OF assms(1-3)])

lemma read_text_file:
  "resolve fs path = Inr loc \<Longrightarrow> node_at fs loc = Some (File (Utf8 stored)) \<Longrightarrow>
   read_text fs path = Inr (translate_newlines stored)"
  by (simp add: read_text_def)

lemma fs_text_wf: "wf_fs fs_text"
  by (simp add: wf_fs_def fs_text_def node_at_def)

lemma fs_text_nodes:
  "node_at fs_text [ascii ''dos''] = Some (File (Utf8 [120, 13, 10, 121]))"
  "node_at fs_text [ascii ''mac''] = Some (File (Utf8 [97, 13, 98]))"
  "node_at fs_text [ascii ''bin''] = Some (File Invalid_utf8)"
  "node_at fs_text [ascii ''abab''] = Some (File (Utf8 (ascii ''abab'')))"
  by (simp_all add: fs_text_def node_at_def ascii_simps)

lemma resolve_single_name:
  assumes "plain_name c" and "node_at fs (cwd fs) = Some Dir" and "node_at fs (cwd fs @ [c]) \<noteq> None"
  shows "resolve fs c = Inr (cwd fs @ [c])"
proof -
  have "c \<noteq> []" "hd c \<noteq> SLASH" "0 \<notin> set c" "SLASH \<notin> set c"
    using assms(1) by (cases c; auto simp: plain_name_def)+
  then show ?thesis
    using assms walk_name [of fs "cwd fs" c]
    by (simp add: resolve_def start_of_def split_on_no_sep del: walk.simps)
qed

lemma fs_text_resolve:
  "resolve fs_text (ascii ''dos'') = Inr [ascii ''dos'']"
  "resolve fs_text (ascii ''mac'') = Inr [ascii ''mac'']"
  "resolve fs_text (ascii ''bin'') = Inr [ascii ''bin'']"
  "resolve fs_text (ascii ''abab'') = Inr [ascii ''abab'']"
proof -
  have c: "cwd fs_text = []" by (simp add: fs_text_def)
  have d: "node_at fs_text (cwd fs_text) = Some Dir" by (simp add: c node_at_def)
  have p: "plain_name (ascii ''dos'')" "plain_name (ascii ''mac'')"
    "plain_name (ascii ''bin'')" "plain_name (ascii ''abab'')"
    by (simp_all add: plain_name_def ascii_simps SLASH_def DOT_def DOTDOT_def)
  show "resolve fs_text (ascii ''dos'') = Inr [ascii ''dos'']"
    using resolve_single_name [OF p(1) d] by (simp add: c fs_text_nodes)
  show "resolve fs_text (ascii ''mac'') = Inr [ascii ''mac'']"
    using resolve_single_name [OF p(2) d] by (simp add: c fs_text_nodes)
  show "resolve fs_text (ascii ''bin'') = Inr [ascii ''bin'']"
    using resolve_single_name [OF p(3) d] by (simp add: c fs_text_nodes)
  show "resolve fs_text (ascii ''abab'') = Inr [ascii ''abab'']"
    using resolve_single_name [OF p(4) d] by (simp add: c fs_text_nodes)
qed

lemma fs_overlap_facts:
  "wf_fs fs_overlap"
  "node_at fs_overlap [ascii ''aaa''] = Some (File (Utf8 (ascii ''aaa'')))"
  "resolve fs_overlap (ascii ''aaa'') = Inr [ascii ''aaa'']"
proof -
  show w: "wf_fs fs_overlap" by (simp add: wf_fs_def fs_overlap_def node_at_def)
  show n: "node_at fs_overlap [ascii ''aaa''] = Some (File (Utf8 (ascii ''aaa'')))"
    by (simp add: fs_overlap_def node_at_def)
  have c: "cwd fs_overlap = []" by (simp add: fs_overlap_def)
  have d: "node_at fs_overlap (cwd fs_overlap) = Some Dir" by (simp add: c node_at_def)
  have p: "plain_name (ascii ''aaa'')"
    by (simp add: plain_name_def ascii_simps SLASH_def DOT_def DOTDOT_def)
  show "resolve fs_overlap (ascii ''aaa'') = Inr [ascii ''aaa'']"
    using resolve_single_name [OF p d] by (simp add: c n)
qed

lemma edit_file_existing:
  assumes "wf_fs fs" and "resolve fs path = Inr loc"
    and "node_at fs loc = Some (File (Utf8 stored))" and "old \<noteq> []"
    and "contains_str (translate_newlines stored) old"
  shows "edit_file se fs path old new =
    (if encodable (replace_str (translate_newlines stored) old new)
     then (Inr (msg_edit_ok @ path),
           set_node fs loc (File (Utf8 (replace_str (translate_newlines stored) old new))))
     else (Inr (msg_edit_err @ se UnicodeEncodeError), set_node fs loc (File (Utf8 []))))"
proof -
  have ex: "path_exists fs path" using assms(2) by (simp add: path_exists_def)
  show ?thesis
    using ex assms(4,5)
    by (simp add: edit_file_def read_text_file [OF assms(2,3)] write_text_def
        open_w_existing_file [OF assms(1,2,3)])
qed

subsection \<open>Replace mode of edit_file\<close>

text \<open>
  C5, as the code has it. In a well-formed filesystem, let the path resolve to a file
  whose bytes decode to \<open>stored\<close>, let \<open>old_text\<close> be non-empty and occur in the
  text that text-mode reading delivers (\<open>stored\<close> with CR LF and CR turned into LF),
  and let the result be encodable. Then \<open>edit_file\<close> reports success and the file
  holds \<open>replace_str\<close> of that text, what \<open>content.replace(old_text, new_text)\<close>
  returns; every other node and the working directory are unchanged. The replacement
  is described by the pieces \<open>segs\<close> of the text: the text is the pieces joined by
  \<open>old_text\<close>, the file holds the same pieces joined by \<open>new_text\<close>, no piece
  contains \<open>old_text\<close>, and every separating occurrence is the leftmost one after
  the previous, as no occurrence begins inside the piece before it (the piece followed
  by all but the last character of \<open>old_text\<close> does not contain \<open>old_text\<close>).
  These conditions determine the pieces (\<open>split_str_unique\<close>). When the file holds
  no CR, the text is the stored content itself.
\<close>
theorem edit_file_replaces:
  assumes "wf_fs fs0"
    and "resolve fs0 path = Inr loc"
    and "node_at fs0 loc = Some (File (Utf8 stored))"
    and "old_text \<noteq> []"
    and "contains_str (translate_newlines stored) old_text"
    and "encodable (replace_str (translate_newlines stored) old_text new_text)"
  shows "\<exists>fs'.
     edit_file str_exc fs0 path old_text new_text = (Inr (msg_edit_ok @ path), fs') \<and>
     node_at fs' loc =
       Some (File (Utf8 (replace_str (translate_newlines stored) old_text new_text))) \<and>
     (\<forall>q. q \<noteq> loc \<longrightarrow> node_at fs' q = node_at fs0 q) \<and>
     cwd fs' = cwd fs0 \<and>
     (\<exists>segs.
        translate_newlines stored = join_str old_text segs \<and>
        replace_str (translate_newlines stored) old_text new_text = join_str new_text segs \<and>
        2 \<le> length segs \<and>
        (\<forall>seg \<in> set segs. \<not> contains_str seg old_text) \<and>
        (\<forall>i. Suc i < length segs \<longrightarrow>
             \<not> contains_str (segs ! i @ butlast old_text) old_text)) \<and>
     (CR \<notin> set stored \<longrightarrow> translate_newlines stored = stored)"
proof -
  let ?text = "translate_newlines stored"
  let ?segs = "split_str ?text old_text"
  let ?fs' = "set_node fs0 loc (File (Utf8 (replace_str ?text old_text new_text)))"
  have ex: "path_exists fs0 path" using assms(2) by (simp add: path_exists_def)
  have ne: "loc \<noteq> []" using assms(3) by (auto simp: node_at_def)
  have 1: "edit_file str_exc fs0 path old_text new_text = (Inr (msg_edit_ok @ path), ?fs')"
    using ex assms(4,5)
    by (simp add: edit_file_def read_text_file [OF assms(2,3)]
        write_text_existing_file [OF assms(1,2,3,6)])
  have 2: "node_at ?fs' loc = Some (File (Utf8 (replace_str ?text old_text new_text)))"
    using ne by (simp add: node_at_set_node)
  have 3: "\<forall>q. q \<noteq> loc \<longrightarrow> node_at ?fs' q = node_at fs0 q"
    using ne by (simp add: node_at_set_node)
  have 4: "cwd ?fs' = cwd fs0" by simp
  have s1: "?text = join_str old_text ?segs" by (simp add: join_split_str)
  have s2: "replace_str ?text old_text new_text = join_str new_text ?segs"
    using assms(4) by (rule replace_split_str)
  have s3: "2 \<le> length ?segs" using assms(4,5) by (rule split_str_present)
  have s4: "\<forall>seg \<in> set ?segs. \<not> contains_str seg old_text"
    using split_str_segments_clean [OF assms(4)] by blast
  have s5: "\<forall>i. Suc i < length ?segs \<longrightarrow>
      \<not> contains_str (?segs ! i @ butlast old_text) old_text"
    using split_str_leftmost [OF assms(4)] by blast
  have 5: "\<exists>segs.
        ?text = join_str old_text segs \<and>
        replace_str ?text old_text new_text = join_str new_text segs \<and>
        2 \<le> length segs \<and>
        (\<forall>seg \<in> set segs. \<not> contains_str seg old_text) \<and>
        (\<forall>i. Suc i < length segs \<longrightarrow>
             \<not> contains_str (segs ! i @ butlast old_text) old_text)"
    using s1 s2 s3 s4 s5 by (intro exI [of _ ?segs] conjI)
  have 6: "CR \<notin> set stored \<longrightarrow> ?text = stored"
    by (simp add: translate_newlines_no_CR)
  from 1 2 3 4 5 6 show ?thesis by (intro exI [of _ ?fs'] conjI)
qed

theorem edit_file_replaces_witness:
  "wf_fs fs_overlap \<and>
   resolve fs_overlap (ascii ''aaa'') = Inr [ascii ''aaa''] \<and>
   node_at fs_overlap [ascii ''aaa''] = Some (File (Utf8 (ascii ''aaa''))) \<and>
   ascii ''aa'' \<noteq> [] \<and>
   contains_str (translate_newlines (ascii ''aaa'')) (ascii ''aa'') \<and>
   encodable (replace_str (translate_newlines (ascii ''aaa'')) (ascii ''aa'') (ascii ''b'')) \<and>
   (\<exists>fs'.
     edit_file str_exc0 fs_overlap (ascii ''aaa'') (ascii ''aa'') (ascii ''b'') =
       (Inr (msg_edit_ok @ ascii ''aaa''), fs') \<and>
     node_at fs' [ascii ''aaa''] = Some (File (Utf8 (ascii ''ba''))))"
proof -
  have t: "translate_newlines (ascii ''aaa'') = ascii ''aaa''"
    by (simp add: ascii_simps CR_def)
  have c: "contains_str (ascii ''aaa'') (ascii ''aa'')" by (simp add: ascii_simps)
  have r: "replace_str (ascii ''aaa'') (ascii ''aa'') (ascii ''b'') = ascii ''ba''"
    by (simp add: ascii_simps)
  have e: "encodable (ascii ''ba'')" by (simp add: ascii_simps encodable_def)
  have n: "ascii ''aa'' \<noteq> []" by (simp add: ascii_simps)
  show ?thesis
    using edit_file_replaces [of fs_overlap "ascii ''aaa''" "[ascii ''aaa'']" "ascii ''aaa''"
        "ascii ''aa''" "ascii ''b''" str_exc0]
      fs_overlap_facts n c e
    by (simp only: t r) blast
qed

text \<open>
  C5 as stated fails. The file \<open>dos\<close> holds x CR LF y, which contains x; replacing
  x by z in it would give z CR LF y, but the file is left with z LF y. And with a
  \<open>new_text\<close> that is a lone surrogate, the edit of \<open>abab\<close> reports an error and
  leaves the file empty.
\<close>
theorem edit_file_replaces_counterexample:
  "node_at fs_text [ascii ''dos''] = Some (File (Utf8 [120, 13, 10, 121])) \<and>
   contains_str [120, 13, 10, 121] (ascii ''x'') \<and>
   replace_str [120, 13, 10, 121] (ascii ''x'') (ascii ''z'') = [122, 13, 10, 121] \<and>
   edit_file str_exc0 fs_text (ascii ''dos'') (ascii ''x'') (ascii ''z'') =
     (Inr (msg_edit_ok @ ascii ''dos''),
      set_node fs_text [ascii ''dos''] (File (Utf8 [122, 10, 121]))) \<and>
   node_at (snd (edit_file str_exc0 fs_text (ascii ''dos'') (ascii ''x'') (ascii ''z'')))
       [ascii ''dos''] \<noteq> Some (File (Utf8 [122, 13, 10, 121])) \<and>
   node_at fs_text [ascii ''abab''] = Some (File (Utf8 (ascii ''abab''))) \<and>
   contains_str (ascii ''abab'') (ascii ''a'') \<and>
   edit_file str_exc0 fs_text (ascii ''abab'') (ascii ''a'') [0xD800] =
     (Inr (msg_edit_err @ str_exc0 UnicodeEncodeError),
      set_node fs_text [ascii ''abab''] (File (Utf8 [])))"
proof -
  have 1: "edit_file str_exc0 fs_text (ascii ''dos'') (ascii ''x'') (ascii ''z'') =
     (Inr (msg_edit_ok @ ascii ''dos''),
      set_node fs_text [ascii ''dos''] (File (Utf8 [122, 10, 121])))"
    by (subst edit_file_existing [OF fs_text_wf fs_text_resolve(1) fs_text_nodes(1)])
       (simp_all add: ascii_simps CR_def LF_def encodable_def)
  have 2: "edit_file str_exc0 fs_text (ascii ''abab'') (ascii ''a'') [0xD800] =
     (Inr (msg_edit_err @ str_exc0 UnicodeEncodeError),
      set_node fs_text [ascii ''abab''] (File (Utf8 [])))"
    by (subst edit_file_existing [OF fs_text_wf fs_text_resolve(4) fs_text_nodes(4)])
       (simp_all add: ascii_simps CR_def LF_def encodable_def)
  show ?thesis
    by (simp add: 1 2 fs_text_nodes node_at_set_node) (simp add: ascii_simps)
qed

text \<open>
  C6, as the code has it. Let the path resolve to a file whose bytes decode to
  \<open>stored\<close>, and let the non-empty \<open>old_text\<close> not occur in the text that
  text-mode reading delivers. Then \<open>edit_file\<close> returns the text-not-found message
  and the filesystem is the one it was given. When the file holds no CR, the
  condition is that \<open>old_text\<close> does not occur in the stored content.
\<close>
theorem edit_file_text_absent:
  assumes "resolve fs0 path = Inr loc"
    and "node_at fs0 loc = Some (File (Utf8 stored))"
    and "old_text \<noteq> []"
    and "\<not> contains_str (translate_newlines stored) old_text"
  shows "edit_file str_exc fs0 path old_text new_text =
           (Inr (msg_text_not_found @ old_text), fs0) \<and>
         (CR \<notin> set stored \<longrightarrow> \<not> contains_str stored old_text)"
proof -
  have ex: "path_exists fs0 path" using assms(1) by (simp add: path_exists_def)
  show ?thesis
    using ex assms(3,4) translate_newlines_no_CR [of stored]
    by (auto simp: edit_file_def read_text_file [OF assms(1,2)])
qed


theorem edit_file_text_absent_witness:
  "resolve fs_text (ascii ''abab'') = Inr [ascii ''abab''] \<and>
   node_at fs_text [ascii ''abab''] = Some (File (Utf8 (ascii ''abab''))) \<and>
   ascii ''c'' \<noteq> [] \<and>
   \<not> contains_str (translate_newlines (ascii ''abab'')) (ascii ''c'') \<and>
   edit_file str_exc0 fs_text (ascii ''abab'') (ascii ''c'') (ascii ''Q'') =
     (Inr (msg_text_not_found @ ascii ''c''), fs_text)"
proof -
  have t: "translate_newlines (ascii ''abab'') = ascii ''abab''"
    by (simp add: ascii_simps CR_def)
  have c: "\<not> contains_str (ascii ''abab'') (ascii ''c'')" by (simp add: ascii_simps)
  have n: "ascii ''c'' \<noteq> []" by (simp add: ascii_simps)
  show ?thesis
    using edit_file_text_absent [of fs_text "ascii ''abab''" "[ascii ''abab'']" "ascii ''abab''"
        "ascii ''c''" str_exc0 "ascii ''Q''"]
      fs_text_resolve(4) fs_text_nodes(4) n c
    by (simp only: t) blast
qed

text \<open>
  C6 as stated fails. The file \<open>mac\<close> holds a CR b, which does not contain
  a LF b; yet \<open>edit_file\<close> finds a LF b in what it reads, reports success and
  rewrites the file. And for the file \<open>bin\<close>, whose bytes are not UTF-8, the
  result is the editing-error message, not the text-not-found message.
\<close>
theorem edit_file_text_absent_counterexample:
  "node_at fs_text [ascii ''mac''] = Some (File (Utf8 [97, 13, 98])) \<and>
   \<not> contains_str [97, 13, 98] [97, 10, 98] \<and>
   edit_file str_exc0 fs_text (ascii ''mac'') [97, 10, 98] (ascii ''Q'') =
     (Inr (msg_edit_ok @ ascii ''mac''),
      set_node fs_text [ascii ''mac''] (File (Utf8 (ascii ''Q'')))) \<and>
   node_at (snd (edit_file str_exc0 fs_text (ascii ''mac'') [97, 10, 98] (ascii ''Q'')))
       [ascii ''mac''] \<noteq> node_at fs_text [ascii ''mac''] \<and>
   node_at fs_text [ascii ''bin''] = Some (File Invalid_utf8) \<and>
   edit_file str_exc0 fs_text (ascii ''bin'') (ascii ''a'') (ascii ''Q'') =
     (Inr (msg_edit_err @ str_exc0 UnicodeDecodeError), fs_text)"
proof -
  have 1: "edit_file str_exc0 fs_text (ascii ''mac'') [97, 10, 98] (ascii ''Q'') =
     (Inr (msg_edit_ok @ ascii ''mac''),
      set_node fs_text [ascii ''mac''] (File (Utf8 (ascii ''Q''))))"
    by (subst edit_file_existing [OF fs_text_wf fs_text_resolve(2) fs_text_nodes(2)])
       (simp_all add: ascii_simps CR_def LF_def encodable_def)
  have 2: "edit_file str_exc0 fs_text (ascii ''bin'') (ascii ''a'') (ascii ''Q'') =
     (Inr (msg_edit_err @ str_exc0 UnicodeDecodeError), fs_text)"
  proof -
    have "ascii ''a'' \<noteq> []" by (simp add: ascii_simps)
    then show ?thesis
      by (simp add: edit_file_def path_exists_def read_text_def fs_text_resolve fs_text_nodes)
  qed
  show ?thesis
    by (simp add: 1 2 fs_text_nodes node_at_set_node) (simp add: ascii_simps)
qed

subsection \<open>The tools keep the filesystem well formed\<close>

text \<open>
  Well-formedness is an invariant: whatever tool is executed with whatever arguments,
  a well-formed filesystem stays well formed, also across all the tool calls of a
  response.
\<close>

lemma wf_fs_iff:
  "wf_fs fs \<longleftrightarrow> (\<forall>k \<in> fst ` set (entries fs). node_at fs (butlast k) = Some Dir)"
  by (simp add: wf_fs_def list_all_iff)

lemma wf_set_node:
  assumes wf: "wf_fs fs" and ne: "loc \<noteq> []"
    and par: "node_at fs (butlast loc) = Some Dir"
    and ok: "n = Dir \<or> node_at fs loc \<noteq> Some Dir"
  shows "wf_fs (set_node fs loc n)"
  unfolding wf_fs_iff
proof
  fix k assume "k \<in> fst ` set (entries (set_node fs loc n))"
  then have k: "k = loc \<or> k \<in> fst ` set (entries fs)"
    by (auto simp: set_node_def dom_update)
  have bl: "butlast loc \<noteq> loc" using ne by (metis length_butlast diff_less length_greater_0_conv less_irrefl zero_less_one)
  show "node_at (set_node fs loc n) (butlast k) = Some Dir"
  proof (cases "butlast k = loc")
    case True
    with bl have kk: "k \<noteq> loc" by auto
    with k have "k \<in> fst ` set (entries fs)" by simp
    then have "node_at fs loc = Some Dir" using wf True by (auto simp: wf_fs_iff)
    with ok have "n = Dir" by simp
    then show ?thesis using True ne by (simp add: node_at_set_node)
  next
    case False
    then have "node_at (set_node fs loc n) (butlast k) = node_at fs (butlast k)"
      using ne by (simp add: node_at_set_node)
    moreover have "node_at fs (butlast k) = Some Dir"
      using k par wf by (auto simp: wf_fs_iff)
    ultimately show ?thesis by simp
  qed
qed

lemma mkdirs_wf: "wf_fs fs \<Longrightarrow> wf_fs (snd (mkdirs fs cur cs))"
proof (induction cs arbitrary: fs cur)
  case Nil
  then show ?case by simp
next
  case (Cons c cs)
  note wf = Cons.prems
  have ih: "wf_fs (snd (mkdirs fs l cs))" for l using wf by (rule Cons.IH)
  show ?case
  proof (cases "0 \<in> set c")
    case True
    then show ?thesis using wf by simp
  next
    case nul: False
    show ?thesis
    proof (cases "node_at fs cur = Some Dir")
      case False
      then show ?thesis using wf nul by (simp split: option.splits node.splits)
    next
      case d: True
      show ?thesis
      proof (cases "c = [] \<or> c = DOT")
        case True
        then show ?thesis using nul d ih [of cur] by auto
      next
        case nd: False
        show ?thesis
        proof (cases "c = DOTDOT")
          case True
          then show ?thesis using nul d nd ih [of "butlast cur"] by simp
        next
          case ndd: False
          show ?thesis
          proof (cases "node_at fs (cur @ [c])")
            case None
            have "wf_fs (set_node fs (cur @ [c]) Dir)"
              using wf d by (intro wf_set_node) simp_all
            then have "wf_fs (snd (mkdirs (set_node fs (cur @ [c]) Dir) (cur @ [c]) cs))"
              by (rule Cons.IH)
            then show ?thesis using nul d nd ndd None by simp
          next
            case (Some n)
            show ?thesis
            proof (cases n)
              case (File x)
              then show ?thesis using nul d nd ndd Some wf by simp
            next
              case Dir
              then show ?thesis using nul d nd ndd Some ih [of "cur @ [c]"] by simp
            qed
          qed
        qed
      qed
    qed
  qed
qed


lemma open_w_cases:
  "open_w fs path = (Inl e, fs') \<Longrightarrow> fs' = fs"
  "open_w fs path = (Inr loc, fs') \<Longrightarrow>
     loc \<noteq> [] \<and> node_at fs (butlast loc) = Some Dir \<and> node_at fs loc \<noteq> Some Dir \<and>
     fs' = set_node fs loc (File (Utf8 []))"
proof -
  let ?w = "walk fs (start_of fs path) (butlast (split_on SLASH path))"
  let ?c = "last (split_on SLASH path)"
  show "open_w fs path = (Inl e, fs') \<Longrightarrow> fs' = fs"
  proof (cases "0 \<in> set path \<or> path = []")
    case True
    then show "open_w fs path = (Inl e, fs') \<Longrightarrow> fs' = fs"
      by (auto simp: open_w_def)
  next
    case False
    show "open_w fs path = (Inl e, fs') \<Longrightarrow> fs' = fs"
    proof (cases ?w)
      case (Inl x)
      then show "open_w fs path = (Inl e, fs') \<Longrightarrow> fs' = fs"
        using False by (simp add: open_w_def)
    next
      case (Inr par)
      show "open_w fs path = (Inl e, fs') \<Longrightarrow> fs' = fs"
        using False Inr
        by (cases "node_at fs par"; cases "node_at fs (par @ [?c])")
           (auto simp: open_w_def Let_def split: node.splits if_splits)
    qed
  qed
  show "open_w fs path = (Inr loc, fs') \<Longrightarrow>
     loc \<noteq> [] \<and> node_at fs (butlast loc) = Some Dir \<and> node_at fs loc \<noteq> Some Dir \<and>
     fs' = set_node fs loc (File (Utf8 []))"
  proof (cases "0 \<in> set path \<or> path = []")
    case True
    then show "open_w fs path = (Inr loc, fs') \<Longrightarrow>
     loc \<noteq> [] \<and> node_at fs (butlast loc) = Some Dir \<and> node_at fs loc \<noteq> Some Dir \<and>
     fs' = set_node fs loc (File (Utf8 []))"
      by (auto simp: open_w_def)
  next
    case False
    show "open_w fs path = (Inr loc, fs') \<Longrightarrow>
     loc \<noteq> [] \<and> node_at fs (butlast loc) = Some Dir \<and> node_at fs loc \<noteq> Some Dir \<and>
     fs' = set_node fs loc (File (Utf8 []))"
    proof (cases ?w)
      case (Inl x)
      then show "open_w fs path = (Inr loc, fs') \<Longrightarrow>
     loc \<noteq> [] \<and> node_at fs (butlast loc) = Some Dir \<and> node_at fs loc \<noteq> Some Dir \<and>
     fs' = set_node fs loc (File (Utf8 []))"
        using False by (simp add: open_w_def)
    next
      case (Inr par)
      show "open_w fs path = (Inr loc, fs') \<Longrightarrow>
     loc \<noteq> [] \<and> node_at fs (butlast loc) = Some Dir \<and> node_at fs loc \<noteq> Some Dir \<and>
     fs' = set_node fs loc (File (Utf8 []))"
        using False Inr
        by (cases "node_at fs par"; cases "node_at fs (par @ [?c])")
           (auto simp: open_w_def Let_def split: node.splits if_splits)
    qed
  qed
qed


lemma write_text_wf: "wf_fs fs \<Longrightarrow> wf_fs (snd (write_text fs path text))"
proof -
  assume wf: "wf_fs fs"
  obtain r fs' where o: "open_w fs path = (r, fs')" by (cases "open_w fs path")
  show ?thesis
  proof (cases r)
    case (Inl e)
    then have "fs' = fs" using o open_w_cases(1) by blast
    then show ?thesis using o Inl wf by (simp add: write_text_def)
  next
    case (Inr loc)
    then have p: "loc \<noteq> []" "node_at fs (butlast loc) = Some Dir"
      "node_at fs loc \<noteq> Some Dir" "fs' = set_node fs loc (File (Utf8 []))"
      using o open_w_cases(2) by blast+
    have "wf_fs (set_node fs loc (File (Utf8 t)))" for t
      using wf p(1,2,3) by (intro wf_set_node) simp_all
    then show ?thesis using o Inr p(4) by (simp add: write_text_def)
  qed
qed

lemma makedirs_wf: "wf_fs fs \<Longrightarrow> wf_fs (snd (makedirs fs path))"
  by (simp add: makedirs_def mkdirs_wf)

lemma edit_file_wf: "wf_fs fs \<Longrightarrow> wf_fs (snd (edit_file se fs path old new))"
proof -
  assume wf: "wf_fs fs"
  show ?thesis
  proof (cases "path_exists fs path \<and> old \<noteq> []")
    case True
    show ?thesis
    proof (cases "read_text fs path")
      case (Inl e)
      then show ?thesis using True wf by (simp add: edit_file_def)
    next
      case (Inr content)
      show ?thesis
      proof (cases "contains_str content old")
        case False
        then show ?thesis using True Inr wf by (simp add: edit_file_def)
      next
        case c: True
        obtain r fs' where w: "write_text fs path (replace_str content old new) = (r, fs')"
          by (cases "write_text fs path (replace_str content old new)")
        then have "wf_fs fs'"
          using write_text_wf [OF wf, of path "replace_str content old new"] by simp
        then show ?thesis
          using True Inr c w by (cases r) (simp_all add: edit_file_def)
      qed
    qed
  next
    case False
    obtain r1 fs1 where m: "(if dirname path \<noteq> [] then makedirs fs (dirname path)
        else (Inr (), fs)) = (r1, fs1)"
      by (cases "if dirname path \<noteq> [] then makedirs fs (dirname path) else (Inr (), fs)")
    have wf1: "wf_fs fs1"
      using m wf makedirs_wf [OF wf, of "dirname path"] by (auto split: if_splits)
    show ?thesis
    proof (cases r1)
      case (Inl e)
      then show ?thesis using False m wf1 by (auto simp: edit_file_def)
    next
      case (Inr u)
      obtain r2 fs2 where w: "write_text fs1 path new = (r2, fs2)"
        by (cases "write_text fs1 path new")
      then have "wf_fs fs2" using write_text_wf [OF wf1, of path new] by simp
      then show ?thesis
        using False m Inr w by (cases r2) (auto simp: edit_file_def)
    qed
  qed
qed

lemma execute_tool_body_wf: "wf_fs fs \<Longrightarrow> wf_fs (snd (execute_tool_body se fs name inp))"
proof -
  assume wf: "wf_fs fs"
  have e: "wf_fs (snd (edit_file se fs p old new))" for p old new
    using wf by (rule edit_file_wf)
  have r: "snd (read_file se fs p) = fs" for p
    using read_file_returns [of se fs p] by auto
  have l: "snd (list_files se fs p) = fs" for p
    using list_files_returns [of se fs p] by auto
  show ?thesis
    unfolding execute_tool_body_def subscript_def
    using wf e r l by (simp split: option.splits)
qed

lemma execute_tool_wf: "wf_fs fs \<Longrightarrow> wf_fs (snd (execute_tool se fs name inp))"
proof -
  assume wf: "wf_fs fs"
  obtain r fs' where b: "execute_tool_body se fs name inp = (r, fs')"
    by (cases "execute_tool_body se fs name inp")
  then have "wf_fs fs'" using execute_tool_body_wf [OF wf, of se name inp] by simp
  then show ?thesis using b by (cases r) (simp_all add: execute_tool_def)
qed

lemma invoke_all_wf: "wf_fs fs \<Longrightarrow> wf_fs (snd (invoke_all se fs us))"
proof (induction us arbitrary: fs)
  case Nil
  then show ?case by simp
next
  case (Cons u us)
  obtain i n inp where u: "u = (i, n, inp)" by (cases u) auto
  obtain r fs' where e: "execute_tool se fs n inp = (Inr r, fs')"
    using execute_tool_returns by blast
  have "wf_fs fs'" using execute_tool_wf [OF Cons.prems, of se n inp] e by simp
  then have "wf_fs (snd (invoke_all se fs' us))" by (rule Cons.IH)
  then show ?case by (cases "invoke_all se fs' us") (simp add: u e)
qed

subsection \<open>Create mode of edit_file\<close>

lemma dirname_split:
  assumes "SLASH \<notin> set c"
  shows "dirname (q @ SLASH # c) =
     (if list_all (\<lambda>x. x = SLASH) q then q @ [SLASH]
      else rev (dropWhile (\<lambda>x. x = SLASH) (rev q)))"
proof -
  have "dropWhile (\<lambda>x. x \<noteq> SLASH) (rev c @ SLASH # rev q) = SLASH # rev q"
    by (subst dropWhile_append2) (use assms in auto)
  then have h: "rev (dropWhile (\<lambda>x. x \<noteq> SLASH) (rev (q @ SLASH # c))) = q @ [SLASH]"
    by simp
  show ?thesis
    unfolding dirname_def h Let_def by (simp add: list_all_iff)
qed

lemma dirname_no_slash: "SLASH \<notin> set c \<Longrightarrow> dirname c = []"
proof -
  assume "SLASH \<notin> set c"
  then have "dropWhile (\<lambda>x. x \<noteq> SLASH) (rev c) = []" by auto
  then show ?thesis by (simp add: dirname_def)
qed

text \<open>
  Paths in general: \<open>os.makedirs\<close> on the directory part of a path turns every
  location passed on the way to the parent into a directory, and \<open>open\<close> then creates
  or truncates the file at the location the path names.
\<close>

lemma land_simps [simp]:
  "land cur [] = cur" "land cur (c # cs) = land (step_loc cur c) cs"
  by (simp_all add: land_def)

lemma land_append: "land cur (cs @ ds) = land (land cur cs) ds"
  by (simp add: land_def)

lemma visit_first: "cur \<in> set (visit cur cs)"
  by (cases cs) simp_all

lemma visit_land: "land cur cs \<in> set (visit cur cs)"
  by (induction cs arbitrary: cur) auto

lemma set_visit_append:
  "set (visit cur (cs @ ds)) = set (visit cur cs) \<union> set (visit (land cur cs) ds)"
proof (induction cs arbitrary: cur)
  case Nil
  show ?case using visit_first [of cur ds] by auto
next
  case (Cons c cs)
  then show ?case by auto
qed

lemma land_replicate_empty: "land cur (replicate n []) = cur"
  by (induction n) (simp_all add: step_loc_def)

lemma set_visit_replicate_empty: "set (visit cur (replicate n [])) = {cur}"
  by (induction n) (simp_all add: step_loc_def)

lemma set_visit_trailing_empty:
  "set (visit cur (cs @ replicate n [])) = set (visit cur cs)"
  using visit_land [of cur cs]
  by (auto simp: set_visit_append set_visit_replicate_empty)

lemma land_trailing_empty: "land cur (cs @ replicate n []) = land cur cs"
  by (simp add: land_append land_replicate_empty)

lemma walk_visit:
  "list_all (is_dir fs) (visit cur cs) \<Longrightarrow> walk fs cur cs = Inr (land cur cs)"
proof (induction cs arbitrary: cur)
  case Nil
  then show ?case by (simp add: is_dir_def)
next
  case (Cons c cs)
  then have "walk fs (step_loc cur c) cs = Inr (land (step_loc cur c) cs)" by simp
  moreover have "node_at fs cur = Some Dir" using Cons.prems by (simp add: is_dir_def)
  ultimately show ?case by (auto simp: step_loc_def split: if_splits)
qed

lemma mkdirs_visit:
  assumes "wf_fs fs" and "is_dir fs cur" and "\<forall>c \<in> set cs. 0 \<notin> set c"
    and "list_all (not_file fs) (visit cur cs)"
  shows "\<exists>fs'. mkdirs fs cur cs = (Inr (), fs') \<and> wf_fs fs' \<and> cwd fs' = cwd fs \<and>
     list_all (is_dir fs') (visit cur cs) \<and>
     (\<forall>q. node_at fs q \<noteq> None \<longrightarrow> node_at fs' q = node_at fs q) \<and>
     (\<forall>q. q \<notin> set (visit cur cs) \<longrightarrow> node_at fs' q = node_at fs q)"
  using assms
proof (induction cs arbitrary: fs cur)
  case Nil
  then show ?case by simp
next
  case (Cons c cs)
  note wf = Cons.prems(1)
  have dcur: "node_at fs cur = Some Dir" using Cons.prems(2) by (simp add: is_dir_def)
  have nul: "0 \<notin> set c" and nuls: "\<forall>c \<in> set cs. 0 \<notin> set c" using Cons.prems(3) by simp_all
  have nfs: "list_all (not_file fs) (visit (step_loc cur c) cs)" using Cons.prems(4) by simp
  show ?case
  proof (cases "c = [] \<or> c = DOT \<or> c = DOTDOT \<or> node_at fs (cur @ [c]) \<noteq> None")
    case True
    let ?n = "step_loc cur c"
    have dn: "is_dir fs ?n"
    proof (cases "c = [] \<or> c = DOT")
      case True
      then show ?thesis using dcur by (auto simp: step_loc_def is_dir_def)
    next
      case a: False
      show ?thesis
      proof (cases "c = DOTDOT")
        case True
        then show ?thesis
          using a wf_fs_parent [OF wf, of cur] dcur by (simp add: step_loc_def is_dir_def)
      next
        case False
        then have s: "?n = cur @ [c]" using a by (simp add: step_loc_def)
        have "not_file fs (cur @ [c])" using nfs visit_first [of ?n cs] s
          by (auto simp: list_all_iff)
        then show ?thesis using True a False s
          by (auto simp: is_dir_def not_file_def split: option.splits node.splits)
      qed
    qed
    have nd: "node_at fs (cur @ [c]) = Some Dir" if "c \<noteq> []" "c \<noteq> DOT" "c \<noteq> DOTDOT"
      using dn that by (simp add: step_loc_def is_dir_def)
    have step: "mkdirs fs cur (c # cs) = mkdirs fs ?n cs"
    proof (cases "c = [] \<or> c = DOT \<or> c = DOTDOT")
      case True
      then show ?thesis using dcur nul by (auto simp: step_loc_def)
    next
      case False
      then show ?thesis using dcur nul nd by (simp add: step_loc_def)
    qed
    obtain fs' where f: "mkdirs fs ?n cs = (Inr (), fs')" "wf_fs fs'" "cwd fs' = cwd fs"
      "list_all (is_dir fs') (visit ?n cs)"
      "\<forall>q. node_at fs q \<noteq> None \<longrightarrow> node_at fs' q = node_at fs q"
      "\<forall>q. q \<notin> set (visit ?n cs) \<longrightarrow> node_at fs' q = node_at fs q"
      using Cons.IH [OF wf dn nuls nfs] by blast
    have "is_dir fs' cur" using f(5) dcur by (simp add: is_dir_def)
    then show ?thesis using step f by auto
  next
    case False
    then have c: "c \<noteq> []" "c \<noteq> DOT" "c \<noteq> DOTDOT" and none: "node_at fs (cur @ [c]) = None"
      by simp_all
    let ?n = "cur @ [c]"
    let ?fs1 = "set_node fs ?n Dir"
    have s: "step_loc cur c = ?n" using c by (simp add: step_loc_def)
    have n1: "node_at ?fs1 q = (if q = ?n then Some Dir else node_at fs q)" for q
      by (simp add: node_at_set_node)
    have wf1: "wf_fs ?fs1" using wf dcur by (intro wf_set_node) simp_all
    have d1: "is_dir ?fs1 ?n" by (simp add: is_dir_def n1)
    have nf1: "list_all (not_file ?fs1) (visit ?n cs)"
      using nfs s by (auto simp: list_all_iff not_file_def n1)
    have step: "mkdirs fs cur (c # cs) = mkdirs ?fs1 ?n cs"
      using dcur nul c none by simp
    obtain fs' where f: "mkdirs ?fs1 ?n cs = (Inr (), fs')" "wf_fs fs'" "cwd fs' = cwd ?fs1"
      "list_all (is_dir fs') (visit ?n cs)"
      "\<forall>q. node_at ?fs1 q \<noteq> None \<longrightarrow> node_at fs' q = node_at ?fs1 q"
      "\<forall>q. q \<notin> set (visit ?n cs) \<longrightarrow> node_at fs' q = node_at ?fs1 q"
      using Cons.IH [OF wf1 d1 nuls nf1] by blast
    have a: "\<forall>q. node_at fs q \<noteq> None \<longrightarrow> node_at fs' q = node_at fs q"
    proof (intro allI impI)
      fix q assume q: "node_at fs q \<noteq> None"
      then have "q \<noteq> ?n" using none by auto
      then have "node_at ?fs1 q = node_at fs q" by (simp add: n1)
      then show "node_at fs' q = node_at fs q" using f(5) q by simp
    qed
    have b: "\<forall>q. q \<notin> set (visit cur (c # cs)) \<longrightarrow> node_at fs' q = node_at fs q"
    proof (intro allI impI)
      fix q assume q: "q \<notin> set (visit cur (c # cs))"
      then have "q \<notin> set (visit ?n cs)" using s by simp
      moreover have "q \<noteq> ?n" using q s visit_first [of ?n cs] by auto
      ultimately show "node_at fs' q = node_at fs q" using f(6) by (simp add: n1)
    qed
    have "is_dir fs' cur" using a dcur by (simp add: is_dir_def)
    then show ?thesis using step f(1,2,3,4) a b s by simp
  qed
qed


lemma split_on_elems: "c \<in> set (split_on d s) \<Longrightarrow> set c \<subseteq> set s"
proof (induction s arbitrary: c)
  case Nil
  then show ?case by simp
next
  case (Cons x xs)
  obtain w ws where w: "split_on d xs = w # ws"
    using split_on_not_Nil [of d xs] by (cases "split_on d xs") auto
  show ?case
  proof (cases "x = d")
    case True
    then show ?thesis using Cons by auto
  next
    case False
    then have "split_on d (x # xs) = (x # w) # ws" using w by simp
    with Cons.prems consider "c = x # w" | "c \<in> set ws" by auto
    then show ?thesis
    proof cases
      case 1
      then show ?thesis using Cons.IH [of w] w by auto
    next
      case 2
      then show ?thesis using Cons.IH [of c] w by auto
    qed
  qed
qed

lemma split_on_snoc_sep: "split_on d (s @ [d]) = split_on d s @ [[]]"
  using split_on_append_sep [of d s "[]"] by simp

lemma split_on_replicate: "split_on d (replicate n d) = replicate (Suc n) []"
  by (induction n) simp_all

lemma split_on_append_replicate:
  "split_on d (s @ replicate j d) = split_on d s @ replicate j []"
proof (cases j)
  case 0
  then show ?thesis by simp
next
  case (Suc k)
  have "split_on d (s @ d # replicate k d) = split_on d s @ split_on d (replicate k d)"
    by (rule split_on_append_sep)
  then show ?thesis using Suc by (simp add: split_on_replicate)
qed

lemma all_slash_replicate: "list_all (\<lambda>x. x = d) q \<Longrightarrow> q = replicate (length q) d"
  by (induction q) simp_all

lemma rstrip_slashes:
  assumes "\<not> list_all (\<lambda>x. x = SLASH) q"
  shows "\<exists>q' j. q = q' @ replicate j SLASH \<and> q' \<noteq> [] \<and>
           rev (dropWhile (\<lambda>x. x = SLASH) (rev q)) = q'"
proof -
  let ?P = "\<lambda>x. x = SLASH"
  let ?t = "takeWhile ?P (rev q)"
  let ?d = "dropWhile ?P (rev q)"
  have "rev q = ?t @ ?d" by simp
  then have "q = rev ?d @ rev ?t" by (metis rev_append rev_rev_ident)
  moreover have "list_all ?P (rev ?t)"
    by (auto simp: list_all_iff dest: set_takeWhileD)
  then have "rev ?t = replicate (length (rev ?t)) SLASH" by (rule all_slash_replicate)
  moreover have "?d \<noteq> []"
    using assms by (auto simp: list_all_iff)
  ultimately show ?thesis by (metis rev_is_Nil_conv)
qed

lemma dirname_components:
  assumes "SLASH \<in> set p"
  shows "\<exists>core m n.
     butlast (split_on SLASH p) = core @ replicate m [] \<and>
     split_on SLASH (dirname p) = core @ replicate n [] \<and>
     dirname p \<noteq> [] \<and> prefix (dirname p) p"
proof -
  obtain q c where p: "p = q @ SLASH # c" and c: "SLASH \<notin> set c"
    using split_list_last [OF assms] by blast
  have b: "butlast (split_on SLASH p) = split_on SLASH q"
    using c by (simp add: p split_on_append_sep split_on_no_sep)
  show ?thesis
  proof (cases "list_all (\<lambda>x. x = SLASH) q")
    case True
    then have q: "q = replicate (length q) SLASH" by (rule all_slash_replicate)
    have d: "dirname p = q @ [SLASH]" using True by (simp add: p dirname_split [OF c])
    have "split_on SLASH q = [] @ replicate (Suc (length q)) []"
      using split_on_replicate [of SLASH "length q"] q by simp
    moreover have "split_on SLASH (dirname p) = [] @ replicate (Suc (Suc (length q))) []"
      using split_on_replicate [of SLASH "length q"] q
      by (simp add: d split_on_snoc_sep replicate_append_same)
    moreover have "prefix (dirname p) p" by (subst d, subst p) simp
    ultimately show ?thesis using b d by (metis snoc_eq_iff_butlast)
  next
    case False
    then obtain q' j where q': "q = q' @ replicate j SLASH" "q' \<noteq> []"
      "rev (dropWhile (\<lambda>x. x = SLASH) (rev q)) = q'"
      using rstrip_slashes by blast
    have d: "dirname p = q'" using False q'(3) by (simp add: p dirname_split [OF c])
    have "split_on SLASH q = split_on SLASH q' @ replicate j []"
      by (subst q'(1)) (rule split_on_append_replicate)
    moreover have "split_on SLASH (dirname p) = split_on SLASH q' @ replicate 0 []"
      by (simp add: d)
    moreover have "prefix (dirname p) p"
      by (subst d, subst p, subst q'(1)) simp
    ultimately show ?thesis using b d q'(2) by metis
  qed
qed

lemma start_of_prefix: "d \<noteq> [] \<Longrightarrow> prefix d p \<Longrightarrow> start_of fs d = start_of fs p"
  by (auto simp: prefix_def start_of_append)


lemma split_parent_last: "split_on SLASH path = parent_comps path @ [last_comp path]"
  using split_on_not_Nil [of SLASH path] by (simp add: parent_comps_def last_comp_def)

lemma start_of_cwd: "cwd fs' = cwd fs \<Longrightarrow> start_of fs' path = start_of fs path"
  by (simp add: start_of_def)

lemma on_the_way_cwd: "cwd fs' = cwd fs \<Longrightarrow> on_the_way fs' path = on_the_way fs path"
  by (simp add: on_the_way_def start_of_def)

lemma target_of_cwd: "cwd fs' = cwd fs \<Longrightarrow> target_of fs' path = target_of fs path"
  by (simp add: target_of_def parent_of_def start_of_def)

declare mkdirs.simps [simp del] walk.simps [simp del]

lemma makedirs_for_path:
  assumes wf: "wf_fs fs" and nul: "0 \<notin> set path"
    and st: "is_dir fs (start_of fs path)"
    and nf: "list_all (not_file fs) (on_the_way fs path)"
  shows "\<exists>fs1. (if dirname path \<noteq> [] then makedirs fs (dirname path) else (Inr (), fs))
        = (Inr (), fs1) \<and>
     wf_fs fs1 \<and> cwd fs1 = cwd fs \<and>
     list_all (is_dir fs1) (on_the_way fs path) \<and>
     (\<forall>q. node_at fs q \<noteq> None \<longrightarrow> node_at fs1 q = node_at fs q) \<and>
     (\<forall>q. q \<notin> set (on_the_way fs path) \<longrightarrow> node_at fs1 q = node_at fs q)"
proof (cases "SLASH \<in> set path")
  case False
  then have "dirname path = []" "parent_comps path = []"
    by (simp_all add: dirname_no_slash parent_comps_def split_on_no_sep)
  then show ?thesis using wf st by (simp add: on_the_way_def)
next
  case True
  let ?start = "start_of fs path"
  obtain core m n where k: "parent_comps path = core @ replicate m []"
    "split_on SLASH (dirname path) = core @ replicate n []"
    "dirname path \<noteq> []" "prefix (dirname path) path"
    using dirname_components [OF True] unfolding parent_comps_def by blast
  let ?D = "split_on SLASH (dirname path)"
  have vs: "set (visit ?start ?D) = set (on_the_way fs path)"
    by (simp add: on_the_way_def k(1,2) set_visit_trailing_empty)
  have sd: "start_of fs (dirname path) = ?start"
    using k(3,4) by (rule start_of_prefix)
  have "set (dirname path) \<subseteq> set path" using k(4) by (rule set_mono_prefix)
  then have n0: "\<forall>c \<in> set ?D. 0 \<notin> set c"
    using nul split_on_elems [of _ SLASH "dirname path"] by blast
  have nf': "list_all (not_file fs) (visit ?start ?D)"
    using nf vs by (simp add: list_all_iff)
  obtain fs1 where f: "mkdirs fs ?start ?D = (Inr (), fs1)" "wf_fs fs1" "cwd fs1 = cwd fs"
    "list_all (is_dir fs1) (visit ?start ?D)"
    "\<forall>q. node_at fs q \<noteq> None \<longrightarrow> node_at fs1 q = node_at fs q"
    "\<forall>q. q \<notin> set (visit ?start ?D) \<longrightarrow> node_at fs1 q = node_at fs q"
    using mkdirs_visit [OF wf st n0 nf'] by blast
  have "list_all (is_dir fs1) (on_the_way fs path)"
    using f(4) vs by (simp add: list_all_iff)
  moreover have "(if dirname path \<noteq> [] then makedirs fs (dirname path) else (Inr (), fs))
      = (Inr (), fs1)"
    using k(3) f(1) by (simp add: makedirs_def sd)
  ultimately show ?thesis using f(2,3,5,6) vs by auto
qed

lemma open_w_after_parents:
  assumes nul: "0 \<notin> set path"
    and c: "last_comp path \<noteq> []" "last_comp path \<noteq> DOT" "last_comp path \<noteq> DOTDOT"
    and d: "list_all (is_dir fs) (on_the_way fs path)"
    and nd: "node_at fs (target_of fs path) \<noteq> Some Dir"
  shows "open_w fs path = (Inr (target_of fs path),
           set_node fs (target_of fs path) (File (Utf8 [])))"
proof -
  have ne: "path \<noteq> []" using c(1) by (auto simp: last_comp_def)
  have w: "walk fs (start_of fs path) (parent_comps path) = Inr (parent_of fs path)"
    using d unfolding on_the_way_def parent_of_def by (rule walk_visit)
  have "parent_of fs path \<in> set (on_the_way fs path)"
    unfolding on_the_way_def parent_of_def by (rule visit_land)
  then have pd: "node_at fs (parent_of fs path) = Some Dir"
    using d by (auto simp: list_all_iff is_dir_def)
  have nd': "node_at fs (parent_of fs path @ [last_comp path]) \<noteq> Some Dir"
    using nd by (simp add: target_of_def)
  have b: "butlast (split_on SLASH path) = parent_comps path"
    and l: "last (split_on SLASH path) = last_comp path"
    by (simp_all add: parent_comps_def last_comp_def)
  have "node_at fs (parent_of fs path @ [last_comp path]) = None \<or>
        (\<exists>x. node_at fs (parent_of fs path @ [last_comp path]) = Some (File x))"
    using nd' by (cases "node_at fs (parent_of fs path @ [last_comp path])")
      (auto intro: node.exhaust)
  then show ?thesis
    using nul ne c
    by (auto simp: open_w_def b l w pd Let_def target_of_def)
qed

lemma resolve_after_create:
  assumes nul: "0 \<notin> set path"
    and c: "last_comp path \<noteq> []" "last_comp path \<noteq> DOT" "last_comp path \<noteq> DOTDOT"
    and d: "list_all (is_dir fs) (on_the_way fs path)"
    and e: "node_at fs (target_of fs path) \<noteq> None"
  shows "resolve fs path = Inr (target_of fs path)"
proof -
  have ne: "path \<noteq> []" using c(1) by (auto simp: last_comp_def)
  have w: "walk fs (start_of fs path) (parent_comps path) = Inr (parent_of fs path)"
    using d unfolding on_the_way_def parent_of_def by (rule walk_visit)
  have "parent_of fs path \<in> set (on_the_way fs path)"
    unfolding on_the_way_def parent_of_def by (rule visit_land)
  then have pd: "node_at fs (parent_of fs path) = Some Dir"
    using d by (auto simp: list_all_iff is_dir_def)
  have "walk fs (parent_of fs path @ [last_comp path]) [] = Inr (target_of fs path)"
    using e by (auto simp: walk.simps target_of_def)
  then have "walk fs (parent_of fs path) [last_comp path] = Inr (target_of fs path)"
    using pd c by (simp add: walk.simps(2) [of fs "parent_of fs path" "last_comp path" "[]"])
  then have "walk fs (start_of fs path) (parent_comps path @ [last_comp path])
      = Inr (target_of fs path)"
    by (simp add: walk_append w)
  then show ?thesis
    using nul ne by (simp add: resolve_def split_parent_last)
qed

lemma edit_file_create_general:
  assumes wf: "wf_fs fs" and nul: "0 \<notin> set path"
    and c: "last_comp path \<noteq> []" "last_comp path \<noteq> DOT" "last_comp path \<noteq> DOTDOT"
    and st: "is_dir fs (start_of fs path)"
    and nf: "list_all (not_file fs) (on_the_way fs path)"
    and tv: "target_of fs path \<notin> set (on_the_way fs path)"
    and nd: "node_at fs (target_of fs path) \<noteq> Some Dir"
    and m: "\<not> path_exists fs path \<or> old = []"
  shows "\<exists>fs1. wf_fs fs1 \<and> cwd fs1 = cwd fs \<and>
     list_all (is_dir fs1) (on_the_way fs path) \<and>
     (\<forall>q. node_at fs q \<noteq> None \<longrightarrow> node_at fs1 q = node_at fs q) \<and>
     (\<forall>q. q \<notin> set (on_the_way fs path) \<longrightarrow> node_at fs1 q = node_at fs q) \<and>
     edit_file se fs path old new =
       (if encodable new
        then (Inr (msg_create_ok @ path),
              set_node fs1 (target_of fs path) (File (Utf8 new)))
        else (Inr (msg_edit_err @ se UnicodeEncodeError),
              set_node fs1 (target_of fs path) (File (Utf8 []))))"
proof -
  from makedirs_for_path [OF wf nul st nf] obtain fs1 where ff:
    "(if dirname path \<noteq> [] then makedirs fs (dirname path) else (Inr (), fs)) = (Inr (), fs1) \<and>
     wf_fs fs1 \<and> cwd fs1 = cwd fs \<and>
     list_all (is_dir fs1) (on_the_way fs path) \<and>
     (\<forall>q. node_at fs q \<noteq> None \<longrightarrow> node_at fs1 q = node_at fs q) \<and>
     (\<forall>q. q \<notin> set (on_the_way fs path) \<longrightarrow> node_at fs1 q = node_at fs q)"
    by (rule exE)
  have f:
    "(if dirname path \<noteq> [] then makedirs fs (dirname path) else (Inr (), fs)) = (Inr (), fs1)"
    "wf_fs fs1" "cwd fs1 = cwd fs"
    "list_all (is_dir fs1) (on_the_way fs path)"
    "\<forall>q. node_at fs q \<noteq> None \<longrightarrow> node_at fs1 q = node_at fs q"
    "\<forall>q. q \<notin> set (on_the_way fs path) \<longrightarrow> node_at fs1 q = node_at fs q"
    using ff by - (elim conjE, assumption)+
  have t1: "target_of fs1 path = target_of fs path"
    and o1: "on_the_way fs1 path = on_the_way fs path"
    using target_of_cwd [OF f(3)] on_the_way_cwd [OF f(3)] by simp_all
  have "node_at fs1 (target_of fs path) = node_at fs (target_of fs path)"
    using f(6) tv by simp
  then have nd1: "node_at fs1 (target_of fs1 path) \<noteq> Some Dir" using nd by (simp add: t1)
  have d1: "list_all (is_dir fs1) (on_the_way fs1 path)" using f(4) by (simp add: o1)
  have o: "open_w fs1 path =
      (Inr (target_of fs path), set_node fs1 (target_of fs path) (File (Utf8 [])))"
    using open_w_after_parents [OF nul c d1 nd1] by (simp add: t1)
  have "edit_file se fs path old new =
       (if encodable new
        then (Inr (msg_create_ok @ path),
              set_node fs1 (target_of fs path) (File (Utf8 new)))
        else (Inr (msg_edit_err @ se UnicodeEncodeError),
              set_node fs1 (target_of fs path) (File (Utf8 []))))"
  proof -
    have w: "write_text fs1 path new =
        (if encodable new then (Inr (), set_node fs1 (target_of fs path) (File (Utf8 new)))
         else (Inl UnicodeEncodeError, set_node fs1 (target_of fs path) (File (Utf8 []))))"
      by (simp only: write_text_def o prod.case sum.case set_node_twice)
    have b: "\<not> (path_exists fs path \<and> old \<noteq> [])" using m by blast
    have "edit_file se fs path old new =
        (case write_text fs1 path new of
                (Inl e, fs2) \<Rightarrow> (Inr (msg_edit_err @ se e), fs2)
              | (Inr _, fs2) \<Rightarrow> (Inr (msg_create_ok @ path), fs2))"
      by (simp only: edit_file_def b if_False f(1) prod.case sum.case)
    also have "\<dots> = (if encodable new
        then (Inr (msg_create_ok @ path),
              set_node fs1 (target_of fs path) (File (Utf8 new)))
        else (Inr (msg_edit_err @ se UnicodeEncodeError),
              set_node fs1 (target_of fs path) (File (Utf8 []))))"
      by (cases "encodable new") (simp_all only: w if_True if_False prod.case sum.case)
    finally show ?thesis .
  qed
  then show ?thesis
    using f(2-6) by (intro exI [of _ fs1] conjI) assumption+
qed

lemma target_of_not_Nil: "target_of fs path \<noteq> []"
  by (simp add: target_of_def)

lemma edit_file_create_result:
  assumes wf: "wf_fs fs" and st: "is_dir fs (start_of fs path)"
    and nul: "0 \<notin> set path"
    and c: "last_comp path \<notin> {[], DOT, DOTDOT}"
    and nf: "list_all (not_file fs) (on_the_way fs path)"
    and tv: "target_of fs path \<notin> set (on_the_way fs path)"
    and nd: "node_at fs (target_of fs path) \<noteq> Some Dir"
    and m: "\<not> path_exists fs path \<or> old = []"
    and en: "encodable new"
  shows "\<exists>fs'.
     edit_file se fs path old new = (Inr (msg_create_ok @ path), fs') \<and>
     resolve fs' path = Inr (target_of fs path) \<and>
     node_at fs' (target_of fs path) = Some (File (Utf8 new)) \<and>
     list_all (is_dir fs') (on_the_way fs path) \<and>
     (\<forall>q. q \<noteq> target_of fs path \<longrightarrow> q \<notin> set (on_the_way fs path) \<longrightarrow>
          node_at fs' q = node_at fs q) \<and>
     (\<forall>q. q \<noteq> target_of fs path \<longrightarrow> node_at fs q \<noteq> None \<longrightarrow>
          node_at fs' q = node_at fs q) \<and>
     cwd fs' = cwd fs"
proof -
  let ?t = "target_of fs path"
  have c3: "last_comp path \<noteq> []" "last_comp path \<noteq> DOT" "last_comp path \<noteq> DOTDOT"
    using c by simp_all
  from edit_file_create_general [OF wf nul c3 st nf tv nd m, of se new]
  obtain fs1 where ff:
    "wf_fs fs1 \<and> cwd fs1 = cwd fs \<and>
     list_all (is_dir fs1) (on_the_way fs path) \<and>
     (\<forall>q. node_at fs q \<noteq> None \<longrightarrow> node_at fs1 q = node_at fs q) \<and>
     (\<forall>q. q \<notin> set (on_the_way fs path) \<longrightarrow> node_at fs1 q = node_at fs q) \<and>
     edit_file se fs path old new =
       (if encodable new
        then (Inr (msg_create_ok @ path), set_node fs1 ?t (File (Utf8 new)))
        else (Inr (msg_edit_err @ se UnicodeEncodeError), set_node fs1 ?t (File (Utf8 []))))"
    by (rule exE)
  have f: "cwd fs1 = cwd fs"
    "list_all (is_dir fs1) (on_the_way fs path)"
    "\<forall>q. node_at fs q \<noteq> None \<longrightarrow> node_at fs1 q = node_at fs q"
    "\<forall>q. q \<notin> set (on_the_way fs path) \<longrightarrow> node_at fs1 q = node_at fs q"
    using ff by - (elim conjE, assumption)+
  let ?fs' = "set_node fs1 ?t (File (Utf8 new))"
  have 1: "edit_file se fs path old new = (Inr (msg_create_ok @ path), ?fs')"
    using ff en by simp
  have nn: "node_at ?fs' q = (if q = ?t then Some (File (Utf8 new)) else node_at fs1 q)"
    for q using target_of_not_Nil by (rule node_at_set_node)
  have 3: "node_at ?fs' ?t = Some (File (Utf8 new))" by (simp add: nn)
  have 4: "list_all (is_dir ?fs') (on_the_way fs path)"
    using f(2) tv by (auto simp: list_all_iff is_dir_def nn)
  have 5: "\<forall>q. q \<noteq> ?t \<longrightarrow> q \<notin> set (on_the_way fs path) \<longrightarrow>
      node_at ?fs' q = node_at fs q"
    using f(4) by (simp add: nn)
  have 6: "\<forall>q. q \<noteq> ?t \<longrightarrow> node_at fs q \<noteq> None \<longrightarrow> node_at ?fs' q = node_at fs q"
    using f(3) by (simp add: nn)
  have 7: "cwd ?fs' = cwd fs" using f(1) by simp
  have t': "target_of ?fs' path = ?t" using target_of_cwd [OF 7] .
  have o': "on_the_way ?fs' path = on_the_way fs path" using on_the_way_cwd [OF 7] .
  have d': "list_all (is_dir ?fs') (on_the_way ?fs' path)" using 4 by (simp only: o')
  have e': "node_at ?fs' (target_of ?fs' path) \<noteq> None" using 3 by (simp only: t') simp
  have 2: "resolve ?fs' path = Inr ?t"
    using resolve_after_create [OF nul c3 d' e'] by (simp only: t')
  from 1 2 3 4 5 6 7 show ?thesis by (intro exI [of _ ?fs'] conjI)
qed

lemma edit_err_not_create: "msg_edit_err @ x \<noteq> msg_create_ok @ y"
  by (simp add: msg_edit_err_def msg_create_ok_def)

lemma mkdirs_cwd: "cwd (snd (mkdirs fs cur cs)) = cwd fs"
proof (induction cs arbitrary: fs cur)
  case Nil
  then show ?case by (simp add: mkdirs.simps)
next
  case (Cons c cs)
  show ?case
  proof (cases "node_at fs cur")
    case None
    then show ?thesis by (simp add: mkdirs.simps)
  next
    case (Some n)
    show ?thesis
    proof (cases n)
      case (File d)
      then show ?thesis using Some by (simp add: mkdirs.simps)
    next
      case Dir
      show ?thesis
      proof (cases "node_at fs (cur @ [c])")
        case None
        then show ?thesis
          using Some Dir Cons.IH [of fs] Cons.IH [of "set_node fs (cur @ [c]) Dir"]
          by (simp add: mkdirs.simps)
      next
        case (Some k)
        then show ?thesis
          using \<open>node_at fs cur = Some n\<close> Dir Cons.IH [of fs]
          by (cases k) (simp_all add: mkdirs.simps)
      qed
    qed
  qed
qed

lemma mkdirs_keeps:
  "node_at fs q \<noteq> None \<Longrightarrow> node_at (snd (mkdirs fs cur cs)) q = node_at fs q"
proof (induction cs arbitrary: fs cur)
  case Nil
  then show ?case by (simp add: mkdirs.simps)
next
  case (Cons c cs)
  show ?case
  proof (cases "node_at fs cur")
    case None
    then show ?thesis by (simp add: mkdirs.simps)
  next
    case (Some n)
    show ?thesis
    proof (cases n)
      case (File d)
      then show ?thesis using Some by (simp add: mkdirs.simps)
    next
      case Dir
      show ?thesis
      proof (cases "node_at fs (cur @ [c])")
        case None
        let ?fs = "set_node fs (cur @ [c]) Dir"
        have ne: "q \<noteq> cur @ [c]" using None Cons.prems by auto
        have k: "node_at ?fs q = node_at fs q"
          using ne by (simp add: node_at_set_node)
        then have "node_at (snd (mkdirs ?fs (cur @ [c]) cs)) q = node_at fs q"
          using Cons.IH [of ?fs "cur @ [c]"] Cons.prems by simp
        then show ?thesis
          using \<open>node_at fs cur = Some n\<close> Dir None Cons.IH [of fs] Cons.prems
          by (simp add: mkdirs.simps)
      next
        case (Some k)
        then show ?thesis
          using \<open>node_at fs cur = Some n\<close> Dir Cons.IH [of fs] Cons.prems
          by (cases k) (simp_all add: mkdirs.simps)
      qed
    qed
  qed
qed

lemma mkdirs_start:
  "mkdirs fs cur (c # cs) = (Inr (), fs') \<Longrightarrow> node_at fs cur = Some Dir"
  by (cases "node_at fs cur") (auto simp: mkdirs.simps split: if_splits node.splits)

lemma walk_success:
  "walk fs cur cs = Inr loc \<Longrightarrow> node_at fs loc = Some Dir \<Longrightarrow>
   loc = land cur cs \<and> list_all (is_dir fs) (visit cur cs)"
proof (induction cs arbitrary: cur)
  case Nil
  then show ?case by (auto simp: walk.simps is_dir_def split: option.splits)
next
  case (Cons c cs)
  have d: "node_at fs cur = Some Dir"
    using Cons.prems(1) by (auto simp: walk.simps split: option.splits node.splits)
  then have d': "is_dir fs cur" by (simp add: is_dir_def)
  from d have "walk fs (step_loc cur c) cs = Inr loc"
    using Cons.prems(1) by (auto simp: walk.simps step_loc_def split: if_splits)
  then have "loc = land (step_loc cur c) cs \<and> list_all (is_dir fs) (visit (step_loc cur c) cs)"
    using Cons.IH Cons.prems(2) by blast
  then show ?case using d' by simp
qed

lemma open_w_success:
  assumes "open_w fs path = (Inr loc, fs')"
  shows "0 \<notin> set path \<and> last_comp path \<notin> {[], DOT, DOTDOT} \<and>
     list_all (is_dir fs) (on_the_way fs path) \<and>
     node_at fs (target_of fs path) \<noteq> Some Dir"
proof -
  have n: "0 \<notin> set path" "path \<noteq> []"
    using assms by (auto simp: open_w_def split: if_splits)
  obtain par where w: "walk fs (start_of fs path) (parent_comps path) = Inr par"
    using assms n
    by (cases "walk fs (start_of fs path) (parent_comps path)")
       (auto simp: open_w_def parent_comps_def)
  have o: "(case node_at fs par of
              Some Dir \<Rightarrow>
                (let c = last (split_on SLASH path) in
                 if c = [] \<or> c = DOT \<or> c = DOTDOT then (Inl (OSError EISDIR), fs)
                 else
                   (case node_at fs (par @ [c]) of
                      Some Dir \<Rightarrow> (Inl (OSError EISDIR), fs)
                    | _ \<Rightarrow> (Inr (par @ [c]), set_node fs (par @ [c]) (File (Utf8 [])))))
            | _ \<Rightarrow> (Inl (OSError ENOTDIR), fs)) = (Inr loc, fs')"
    using assms n w by (simp add: open_w_def parent_comps_def)
  have d: "node_at fs par = Some Dir"
    using o by (auto split: option.splits node.splits)
  have c: "last_comp path \<notin> {[], DOT, DOTDOT}"
    using o d by (auto simp: Let_def last_comp_def split: if_splits)
  have t: "node_at fs (par @ [last_comp path]) \<noteq> Some Dir"
    using o d c by (auto simp: Let_def last_comp_def split: if_splits option.splits node.splits)
  have "par = land (start_of fs path) (parent_comps path) \<and>
        list_all (is_dir fs) (visit (start_of fs path) (parent_comps path))"
    using w d by (rule walk_success)
  then show ?thesis
    using n(1) c t by (simp add: on_the_way_def target_of_def parent_of_def)
qed

text \<open>
  The converse of \<open>edit_file_create_result\<close>: a call in create mode that returns the
  creation message met every condition.
\<close>
lemma edit_file_create_only_if:
  assumes m: "\<not> path_exists fs path \<or> old = []"
    and r: "fst (edit_file se fs path old new) = Inr (msg_create_ok @ path)"
  shows "is_dir fs (start_of fs path) \<and> 0 \<notin> set path \<and>
     last_comp path \<notin> {[], DOT, DOTDOT} \<and>
     list_all (not_file fs) (on_the_way fs path) \<and>
     target_of fs path \<notin> set (on_the_way fs path) \<and>
     node_at fs (target_of fs path) \<noteq> Some Dir \<and>
     encodable new"
proof -
  let ?mk = "if dirname path \<noteq> [] then makedirs fs (dirname path) else (Inr (), fs)"
  have b: "\<not> (path_exists fs path \<and> old \<noteq> [])" using m by blast
  have e: "edit_file se fs path old new =
      (case ?mk of
         (Inl e, fs1) \<Rightarrow> (Inr (msg_edit_err @ se e), fs1)
       | (Inr _, fs1) \<Rightarrow>
           (case write_text fs1 path new of
              (Inl e, fs2) \<Rightarrow> (Inr (msg_edit_err @ se e), fs2)
            | (Inr _, fs2) \<Rightarrow> (Inr (msg_create_ok @ path), fs2)))"
    by (simp only: edit_file_def b if_False)
  obtain r1 fs1 where mk: "?mk = (r1, fs1)" by (cases ?mk)
  have r1: "r1 = Inr ()"
    using r e mk by (cases r1) (simp_all add: edit_err_not_create)
  obtain r2 fs2 where wt: "write_text fs1 path new = (r2, fs2)"
    by (cases "write_text fs1 path new")
  have r2: "r2 = Inr ()"
    using r e mk r1 wt by (cases r2) (simp_all add: edit_err_not_create)
  obtain loc fs3 where ow: "open_w fs1 path = (Inr loc, fs3)" and en: "encodable new"
    using wt r2
    by (cases "open_w fs1 path"; cases "fst (open_w fs1 path)")
       (auto simp: write_text_def split: if_splits)
  have fs1: "fs1 = snd ?mk" using mk by simp
  have cw: "cwd fs1 = cwd fs"
    unfolding fs1 by (simp add: makedirs_def mkdirs_cwd)
  have keep: "node_at fs q \<noteq> None \<Longrightarrow> node_at fs1 q = node_at fs q" for q
    unfolding fs1 by (simp add: makedirs_def mkdirs_keeps)
  have s: "0 \<notin> set path" "last_comp path \<notin> {[], DOT, DOTDOT}"
    "list_all (is_dir fs1) (on_the_way fs path)"
    "node_at fs1 (target_of fs path) \<noteq> Some Dir"
    using open_w_success [OF ow] on_the_way_cwd [OF cw, of path] target_of_cwd [OF cw, of path]
    by simp_all
  have 1: "list_all (not_file fs) (on_the_way fs path)"
    unfolding list_all_iff
  proof
    fix q assume q: "q \<in> set (on_the_way fs path)"
    then have "node_at fs1 q = Some Dir" using s(3) by (simp add: list_all_iff is_dir_def)
    then show "not_file fs q"
      using keep [of q] by (cases "node_at fs q") (auto simp: not_file_def split: node.splits)
  qed
  have 2: "target_of fs path \<notin> set (on_the_way fs path)"
    using s(3,4) by (auto simp: list_all_iff is_dir_def)
  have 3: "node_at fs (target_of fs path) \<noteq> Some Dir"
    using s(4) keep [of "target_of fs path"] by auto
  have 0: "is_dir fs (start_of fs path)"
  proof (cases "dirname path = []")
    case True
    then have "fs1 = fs" using mk by simp
    moreover have "start_of fs path \<in> set (on_the_way fs path)"
      unfolding on_the_way_def by (rule visit_first)
    ultimately show ?thesis using s(3) by (simp add: list_all_iff)
  next
    case False
    have sl: "SLASH \<in> set path" using False dirname_no_slash by blast
    obtain c cs where sp: "split_on SLASH (dirname path) = c # cs"
      using split_on_not_Nil [of SLASH "dirname path"] by (cases "split_on SLASH (dirname path)") auto
    have "prefix (dirname path) path" using dirname_components [OF sl] by blast
    then have st: "start_of fs (dirname path) = start_of fs path"
      using False by (rule start_of_prefix [rotated])
    have "mkdirs fs (start_of fs path) (c # cs) = (Inr (), fs1)"
      using mk r1 False by (simp add: makedirs_def st sp)
    then show ?thesis unfolding is_dir_def by (rule mkdirs_start)
  qed
  from 0 s(1,2) 1 2 3 en show ?thesis by blast
qed

lemma fs_demo_wf: "wf_fs fs_demo"
  by (simp add: wf_fs_def fs_demo_def node_at_def)

lemma demo_cwd: "cwd fs_demo = []"
  by (simp add: fs_demo_def)

lemma demo_via_k:
  "0 \<notin> set (ascii ''k/../m'')"
  "last_comp (ascii ''k/../m'') = ascii ''m''"
  "start_of fs_demo (ascii ''k/../m'') = []"
  "on_the_way fs_demo (ascii ''k/../m'') = [[], [ascii ''k''], []]"
  "target_of fs_demo (ascii ''k/../m'') = [ascii ''m'']"
  "\<not> path_exists fs_demo (ascii ''k/../m'')"
  by (simp_all add: last_comp_def on_the_way_def target_of_def parent_of_def parent_comps_def
      step_loc_def start_of_def path_exists_def resolve_def walk.simps node_at_def fs_demo_def
      ascii_simps SLASH_def DOT_def DOTDOT_def)

lemma demo_dot_e_n:
  "0 \<notin> set (ascii ''./e//n'')"
  "last_comp (ascii ''./e//n'') = ascii ''n''"
  "start_of fs_demo (ascii ''./e//n'') = []"
  "on_the_way fs_demo (ascii ''./e//n'') = [[], [], [ascii ''e''], [ascii ''e'']]"
  "target_of fs_demo (ascii ''./e//n'') = [ascii ''e'', ascii ''n'']"
  "\<not> path_exists fs_demo (ascii ''./e//n'')"
  by (simp_all add: last_comp_def on_the_way_def target_of_def parent_of_def parent_comps_def
      step_loc_def start_of_def path_exists_def resolve_def walk.simps node_at_def fs_demo_def
      ascii_simps SLASH_def DOT_def DOTDOT_def)


lemmas demo_eval =
  edit_file_def path_exists_def resolve_def dirname_def makedirs_def mkdirs.simps walk.simps
  write_text_def open_w_def start_of_def node_at_def set_node_def fs_demo_def
  ascii_simps SLASH_def DOT_def DOTDOT_def Let_def

lemma demo_absent:
  "\<not> path_exists fs_demo []"
  "\<not> path_exists fs_demo (ascii ''n'')"
  "\<not> path_exists fs_demo [110, 0]"
  "\<not> path_exists fs_demo (ascii ''d/b/x'')"
  "\<not> path_exists fs_demo (ascii ''n/.'')"
  "\<not> path_exists fs_demo (ascii ''n/../n'')"
  "\<not> path_exists fs_demo (ascii ''k/../d'')"
  by (simp_all add: demo_eval)

lemma demo_edit_empty_path:
  "edit_file se fs_demo [] [] new = (Inr (msg_edit_err @ se (OSError ENOENT)), fs_demo)"
  by (simp add: demo_eval)

lemma demo_edit_directory:
  "path_isdir fs_demo (ascii ''d'')"
  "edit_file se fs_demo (ascii ''d'') [] new =
     (Inr (msg_edit_err @ se (OSError EISDIR)), fs_demo)"
  by (simp_all add: demo_eval path_isdir_def)

lemma demo_edit_nul:
  "edit_file se fs_demo [110, 0] [] new = (Inr (msg_edit_err @ se ValueError), fs_demo)"
  by (simp add: demo_eval)

lemma demo_edit_under_file:
  "node_at fs_demo [ascii ''d'', ascii ''b''] = Some (File (Utf8 (ascii ''x'')))"
  "edit_file se fs_demo (ascii ''d/b/x'') [] new =
     (Inr (msg_edit_err @ se (OSError EEXIST)), fs_demo)"
  by (simp_all add: demo_eval)

lemma demo_edit_dot:
  "edit_file se fs_demo (ascii ''n/.'') [] new =
     (Inr (msg_edit_err @ se (OSError EISDIR)), set_node fs_demo [ascii ''n''] Dir)"
  by (simp add: demo_eval)

lemma demo_edit_back:
  "edit_file se fs_demo (ascii ''n/../n'') [] new =
     (Inr (msg_edit_err @ se (OSError EISDIR)), set_node fs_demo [ascii ''n''] Dir)"
  by (simp add: demo_eval)

lemma demo_edit_onto_directory:
  "edit_file se fs_demo (ascii ''k/../d'') [] new =
     (Inr (msg_edit_err @ se (OSError EISDIR)), set_node fs_demo [ascii ''k''] Dir)"
  by (simp add: demo_eval)

lemma demo_edit_n:
  "edit_file se fs_demo (ascii ''n'') [] new =
     (if encodable new
      then (Inr (msg_create_ok @ ascii ''n''), set_node fs_demo [ascii ''n''] (File (Utf8 new)))
      else (Inr (msg_edit_err @ se UnicodeEncodeError),
            set_node fs_demo [ascii ''n''] (File (Utf8 []))))"
  by (simp add: demo_eval)

lemma demo_read_n:
  "read_file se (set_node fs_demo [ascii ''n''] (File (Utf8 stored))) (ascii ''n'') =
     (Inr (msg_file_pre @ ascii ''n'' @ msg_content_suf @ translate_newlines stored),
      set_node fs_demo [ascii ''n''] (File (Utf8 stored)))"
  by (simp add: read_file_def read_text_def demo_eval)

lemma demo_read_empty_path:
  "read_file se fs_demo [] = (Inr (msg_file_not_found @ []), fs_demo)"
  by (simp add: read_file_def read_text_def resolve_def)







end
